theory Spec2Isabelle
  imports Main
begin

section \<open>JavaScript values of the video catalog service\<close>

text \<open>
  The service keeps its whole catalog in one JSON document, \<^verbatim>\<open>./videos.json\<close>.
  Every request handler reads the document with \<^verbatim>\<open>JSON.parse\<close>, changes the
  value in memory and writes it back with \<^verbatim>\<open>JSON.stringify\<close>.

  A document is a JSON value. Strings are lists of code units below 256 (one
  \<^typ>\<open>char\<close> each) and there are no numbers: a document with a number or
  with an escape for a wider code unit is outside the fragment, and the model says so
  (\<open>Beyond\<close>) instead of guessing. An object is the list of its own properties in the
  order JavaScript enumerates them.
\<close>

datatype json =
    JNull
  | JBool bool
  | JStr string
  | JArr "json list"
  | JObj "(string \<times> json) list"

text \<open>
  What an expression of the source evaluates to: a JSON value, \<^verbatim>\<open>undefined\<close>,
  the number an array's \<^verbatim>\<open>length\<close> yields, or a built-in reached through the
  prototype chain (a function such as \<^verbatim>\<open>Object.prototype.toString\<close>, or
  \<^verbatim>\<open>Object.prototype\<close> itself for the key \<^verbatim>\<open>__proto__\<close>).
\<close>

datatype jsval =
    Undefined
  | Num nat
  | Function
  | Prototype
  | Val json

datatype exn = SyntaxError | TypeError | IOError

text \<open>
  The result of a step: a value, a thrown exception, or \<open>Beyond\<close> when the step
  leaves the fragment the model represents.
\<close>

datatype 'a res = Ok 'a | Throws exn | Beyond

fun bind :: "'a res \<Rightarrow> ('a \<Rightarrow> 'b res) \<Rightarrow> 'b res" where
  "bind (Ok x) f = f x"
| "bind (Throws e) f = Throws e"
| "bind Beyond f = Beyond"

text \<open>Truthiness, as \<^verbatim>\<open>!x\<close> and \<^verbatim>\<open>x || y\<close> test it.\<close>

fun truthy_json :: "json \<Rightarrow> bool" where
  "truthy_json JNull = False"
| "truthy_json (JBool b) = b"
| "truthy_json (JStr s) = (s \<noteq> [])"
| "truthy_json (JArr xs) = True"
| "truthy_json (JObj kvs) = True"

fun truthy :: "jsval \<Rightarrow> bool" where
  "truthy Undefined = False"
| "truthy (Num n) = (n \<noteq> 0)"
| "truthy Function = True"
| "truthy Prototype = True"
| "truthy (Val v) = truthy_json v"

subsection \<open>Property keys\<close>

definition is_digit :: "char \<Rightarrow> bool" where
  "is_digit c = (c \<in> set ''0123456789'')"

definition digit_val :: "char \<Rightarrow> nat" where
  "digit_val c = of_char c - 48"

definition decimal :: "string \<Rightarrow> nat" where
  "decimal s = foldl (\<lambda>n c. 10 * n + digit_val c) 0 s"

text \<open>
  A key is an array index when it is the canonical decimal numeral of a number below
  \<open>2^32 - 1\<close>: \<^verbatim>\<open>"7"\<close> is one, \<^verbatim>\<open>"07"\<close>, \<^verbatim>\<open>"-1"\<close> and
  \<^verbatim>\<open>"1.0"\<close> are ordinary property names.
\<close>

definition array_index :: "string \<Rightarrow> nat option" where
  "array_index s =
     (if s \<noteq> [] \<and> list_all is_digit s \<and> (s = ''0'' \<or> hd s \<noteq> CHR ''0'')
         \<and> length s \<le> 10 \<and> decimal s < 4294967295
      then Some (decimal s) else None)"

text \<open>
  The properties every object inherits from \<^verbatim>\<open>Object.prototype\<close>. The built-in
  objects are as the language defines them: the one step of the service that would
  change a built-in, an assignment to a property of it, is \<open>Beyond\<close>.
\<close>

definition Object_prototype :: "string list" where
  "Object_prototype =
     [''constructor'', ''__defineGetter__'', ''__defineSetter__'', ''hasOwnProperty'',
      ''__lookupGetter__'', ''__lookupSetter__'', ''isPrototypeOf'',
      ''propertyIsEnumerable'', ''toString'', ''valueOf'', ''__proto__'',
      ''toLocaleString'']"

text \<open>The methods an array inherits from \<^verbatim>\<open>Array.prototype\<close> (ECMAScript 2023).\<close>

definition Array_prototype :: "string list" where
  "Array_prototype =
     [''at'', ''concat'', ''copyWithin'', ''fill'', ''find'', ''findIndex'', ''findLast'',
      ''findLastIndex'', ''lastIndexOf'', ''pop'', ''push'', ''reverse'', ''shift'',
      ''unshift'', ''slice'', ''sort'', ''splice'', ''includes'', ''indexOf'', ''join'',
      ''keys'', ''entries'', ''values'', ''forEach'', ''filter'', ''flat'', ''flatMap'',
      ''map'', ''every'', ''some'', ''reduce'', ''reduceRight'', ''toReversed'',
      ''toSorted'', ''toSpliced'', ''with'']"

definition inherited :: "string \<Rightarrow> jsval" where
  "inherited k =
     (if k = ''__proto__'' then Prototype
      else if k \<in> set Object_prototype then Function
      else Undefined)"

subsection \<open>Objects and arrays\<close>

text \<open>
  An object enumerates its array-index keys first, in ascending order, and then its other
  keys in the order they were created. \<open>set_prop\<close> is the assignment
  \<^verbatim>\<open>obj[k] = v\<close> on own properties: an existing key keeps its place.
\<close>

definition index_below :: "nat \<Rightarrow> string \<times> json \<Rightarrow> bool" where
  "index_below i kv = (case array_index (fst kv) of Some j \<Rightarrow> j < i | None \<Rightarrow> False)"

definition set_prop :: "(string \<times> json) list \<Rightarrow> string \<Rightarrow> json \<Rightarrow> (string \<times> json) list" where
  "set_prop kvs k v =
     (if k \<in> fst ` set kvs then map (\<lambda>kv. if fst kv = k then (k, v) else kv) kvs
      else case array_index k of
             None \<Rightarrow> kvs @ [(k, v)]
           | Some i \<Rightarrow> takeWhile (index_below i) kvs @ (k, v) # dropWhile (index_below i) kvs)"

text \<open>\<^verbatim>\<open>delete obj[k]\<close>\<close>

definition delete_prop :: "(string \<times> json) list \<Rightarrow> string \<Rightarrow> (string \<times> json) list" where
  "delete_prop kvs k = filter (\<lambda>kv. fst kv \<noteq> k) kvs"

text \<open>
  \<^verbatim>\<open>x[k]\<close>: own properties first, then the prototype chain. Reading a property of
  \<^verbatim>\<open>null\<close> or \<^verbatim>\<open>undefined\<close> throws. No built-in has a property
  \<^verbatim>\<open>videos\<close>; its other properties are not modelled, nor are the properties of a
  string or a boolean, nor the prototype of an array.
\<close>

fun get_json :: "json \<Rightarrow> string \<Rightarrow> jsval res" where
  "get_json JNull k = Throws TypeError"
| "get_json (JBool b) k = Beyond"
| "get_json (JStr s) k = Beyond"
| "get_json (JArr xs) k =
     (case array_index k of
        Some i \<Rightarrow> Ok (if i < length xs then Val (xs ! i) else Undefined)
      | None \<Rightarrow>
          if k = ''length'' then Ok (Num (length xs))
          else if k \<in> set Array_prototype then Ok Function
          else if k = ''__proto__'' then Beyond
          else Ok (inherited k))"
| "get_json (JObj kvs) k =
     Ok (case map_of kvs k of Some v \<Rightarrow> Val v | None \<Rightarrow> inherited k)"

fun get :: "jsval \<Rightarrow> string \<Rightarrow> jsval res" where
  "get Undefined k = Throws TypeError"
| "get (Val v) k = get_json v k"
| "get (Num n) k = Beyond"
| "get Function k = (if k = ''videos'' then Ok Undefined else Beyond)"
| "get Prototype k = (if k = ''videos'' then Ok Undefined else Beyond)"

text \<open>
  \<^verbatim>\<open>x[k] = v\<close> (the source is an ES module, so strict mode: assigning a property
  of a primitive throws). An array with a named property, and a write that reaches a
  built-in, are outside the fragment.
\<close>

fun set_json :: "json \<Rightarrow> string \<Rightarrow> json \<Rightarrow> json res" where
  "set_json JNull k v = Throws TypeError"
| "set_json (JBool b) k v = Throws TypeError"
| "set_json (JStr s) k v = Throws TypeError"
| "set_json (JArr xs) k v = Beyond"
| "set_json (JObj kvs) k v =
     (if k = ''__proto__'' \<and> k \<notin> fst ` set kvs then Beyond
      else Ok (JObj (set_prop kvs k v)))"

fun set_member :: "jsval \<Rightarrow> string \<Rightarrow> json \<Rightarrow> json res" where
  "set_member Undefined k v = Throws TypeError"
| "set_member (Val x) k v = set_json x k v"
| "set_member (Num n) k v = Throws TypeError"
| "set_member Function k v = Beyond"
| "set_member Prototype k v = Beyond"

text \<open>
  \<^verbatim>\<open>x.push(v)\<close>: only an array has a \<^verbatim>\<open>push\<close> that can be called.
\<close>

fun push :: "jsval \<Rightarrow> json \<Rightarrow> json res" where
  "push (Val (JArr xs)) v = Ok (JArr (xs @ [v]))"
| "push x v = Throws TypeError"

text \<open>
  \<^verbatim>\<open>x.splice(index, 1)\<close> with the string \<^verbatim>\<open>index\<close> of the route. The
  handlers call it only after \<^verbatim>\<open>x[index]\<close> was truthy, so \<^verbatim>\<open>index\<close>
  is an array index or the name of an inherited property or \<^verbatim>\<open>length\<close>; for
  such a name \<^verbatim>\<open>ToIntegerOrInfinity\<close> gives 0.
\<close>

definition splice_start :: "string \<Rightarrow> nat" where
  "splice_start index = (case array_index index of Some i \<Rightarrow> i | None \<Rightarrow> 0)"

fun splice1 :: "jsval \<Rightarrow> string \<Rightarrow> json res" where
  "splice1 (Val (JArr xs)) index =
     Ok (JArr (take (splice_start index) xs @ drop (Suc (splice_start index)) xs))"
| "splice1 x index = Throws TypeError"

text \<open>\<^verbatim>\<open>Object.keys(x)\<close>\<close>

fun Object_keys :: "json \<Rightarrow> string list res" where
  "Object_keys JNull = Throws TypeError"
| "Object_keys (JObj kvs) = Ok (map fst kvs)"
| "Object_keys (JBool b) = Ok []"
| "Object_keys x = Beyond"

section \<open>The JSON text of the document\<close>

text \<open>
  \<^verbatim>\<open>JSON.stringify(videos, null, 2)\<close> prints a value with an indentation of two
  spaces; \<^verbatim>\<open>JSON.parse\<close> reads a text back, or throws a
  \<^verbatim>\<open>SyntaxError\<close>.
\<close>

abbreviation dq :: char where "dq \<equiv> CHR 0x22"
abbreviation bs :: char where "bs \<equiv> CHR 0x5C"

definition hex_digit :: "nat \<Rightarrow> char" where
  "hex_digit n = ''0123456789abcdef'' ! n"

definition escape :: "char \<Rightarrow> string" where
  "escape c =
     (if c = CHR 0x08 then [bs, CHR ''b'']
      else if c = CHR 0x09 then [bs, CHR ''t'']
      else if c = CHR 0x0A then [bs, CHR ''n'']
      else if c = CHR 0x0C then [bs, CHR ''f'']
      else if c = CHR 0x0D then [bs, CHR ''r'']
      else if c = dq then [bs, dq]
      else if c = bs then [bs, bs]
      else if (of_char c :: nat) < 32
        then [bs, CHR ''u'', CHR ''0'', CHR ''0'', hex_digit (of_char c div 16), hex_digit (of_char c mod 16)]
      else [c])"

definition quote :: "string \<Rightarrow> string" where
  "quote s = dq # concat (map escape s) @ [dq]"

definition newline :: "string \<Rightarrow> string" where
  "newline ind = CHR 0x0A # ind"

function ser :: "string \<Rightarrow> json \<Rightarrow> string"
and ser_elements :: "string \<Rightarrow> json \<Rightarrow> json list \<Rightarrow> string"
and ser_members :: "string \<Rightarrow> string \<times> json \<Rightarrow> (string \<times> json) list \<Rightarrow> string" where
  "ser ind JNull = ''null''"
| "ser ind (JBool b) = (if b then ''true'' else ''false'')"
| "ser ind (JStr s) = quote s"
| "ser ind (JArr []) = ''[]''"
| "ser ind (JArr (x # xs)) =
     ''['' @ newline (ind @ ''  '') @ ser_elements (ind @ ''  '') x xs @ newline ind @ '']''"
| "ser ind (JObj []) = ''{}''"
| "ser ind (JObj (kv # kvs)) =
     ''{'' @ newline (ind @ ''  '') @ ser_members (ind @ ''  '') kv kvs @ newline ind @ ''}''"
| "ser_elements ind x [] = ser ind x"
| "ser_elements ind x (y # ys) = ser ind x @ '','' @ newline ind @ ser_elements ind y ys"
| "ser_members ind kv [] = quote (fst kv) @ '': '' @ ser ind (snd kv)"
| "ser_members ind kv (kv' # kvs) =
     quote (fst kv) @ '': '' @ ser ind (snd kv) @ '','' @ newline ind @ ser_members ind kv' kvs"

  by pat_completeness auto
termination
  by (relation "measure (\<lambda>x. case x of
         Inl (ind, v) \<Rightarrow> 2 * size v
       | Inr (Inl (ind, x, xs)) \<Rightarrow> 2 * (size x + size_list size xs) + 1
       | Inr (Inr (ind, kv, kvs)) \<Rightarrow> 2 * (size (snd kv) + size_list (size_prod (\<lambda>k. 0) size) kvs) + 1)")
     auto


definition is_ws :: "char \<Rightarrow> bool" where
  "is_ws c = (c = CHR '' '' \<or> c = CHR 0x09 \<or> c = CHR 0x0A \<or> c = CHR 0x0D)"

definition skip_ws :: "string \<Rightarrow> string" where
  "skip_ws s = dropWhile is_ws s"

definition is_hex :: "char \<Rightarrow> bool" where
  "is_hex c = (c \<in> set ''0123456789abcdefABCDEF'')"

definition hex_val :: "char \<Rightarrow> nat" where
  "hex_val c =
     (if is_digit c then of_char c - 48
      else if c \<in> set ''abcdef'' then of_char c - 87
      else of_char c - 55)"

definition unescape :: "char \<Rightarrow> char option" where
  "unescape e =
     (if e = dq then Some dq
      else if e = bs then Some bs
      else if e = CHR ''/'' then Some CHR ''/''
      else if e = CHR ''b'' then Some (CHR 0x08)
      else if e = CHR ''f'' then Some (CHR 0x0C)
      else if e = CHR ''n'' then Some (CHR 0x0A)
      else if e = CHR ''r'' then Some (CHR 0x0D)
      else if e = CHR ''t'' then Some (CHR 0x09)
      else None)"

definition cons_char :: "char \<Rightarrow> (string \<times> string) res \<Rightarrow> (string \<times> string) res" where
  "cons_char c r = bind r (\<lambda>p. Ok (c # fst p, snd p))"

fun parse_chars :: "string \<Rightarrow> (string \<times> string) res" where
  "parse_chars [] = Throws SyntaxError"
| "parse_chars (c # cs) =
     (if c = dq then Ok ([], cs)
      else if c = bs then
        (case cs of
           [] \<Rightarrow> Throws SyntaxError
         | e # cs1 \<Rightarrow>
             if e = CHR ''u'' then
               (case cs1 of
                  h1 # h2 # h3 # h4 # cs2 \<Rightarrow>
                    if is_hex h1 \<and> is_hex h2 \<and> is_hex h3 \<and> is_hex h4 then
                      (if hex_val h1 = 0 \<and> hex_val h2 = 0
                       then cons_char (char_of (16 * hex_val h3 + hex_val h4)) (parse_chars cs2)
                       else Beyond)
                    else Throws SyntaxError
                | _ \<Rightarrow> Throws SyntaxError)
             else
               (case unescape e of
                  None \<Rightarrow> Throws SyntaxError
                | Some ch \<Rightarrow> cons_char ch (parse_chars cs1)))
      else if (of_char c :: nat) < 32 then Throws SyntaxError
      else cons_char c (parse_chars cs))"

fun parse_value :: "nat \<Rightarrow> string \<Rightarrow> (json \<times> string) res"
and parse_elements :: "nat \<Rightarrow> json list \<Rightarrow> string \<Rightarrow> (json \<times> string) res"
and parse_members :: "nat \<Rightarrow> (string \<times> json) list \<Rightarrow> string \<Rightarrow> (json \<times> string) res" where
  "parse_value 0 s = Beyond"
| "parse_value (Suc n) s =
     (case skip_ws s of
        [] \<Rightarrow> Throws SyntaxError
      | c # cs \<Rightarrow>
          if c = CHR ''['' then
            (case skip_ws cs of
               [] \<Rightarrow> Throws SyntaxError
             | d # ds \<Rightarrow> if d = CHR '']'' then Ok (JArr [], ds) else parse_elements n [] cs)
          else if c = CHR ''{'' then
            (case skip_ws cs of
               [] \<Rightarrow> Throws SyntaxError
             | d # ds \<Rightarrow> if d = CHR ''}'' then Ok (JObj [], ds) else parse_members n [] cs)
          else if c = dq then bind (parse_chars cs) (\<lambda>p. Ok (JStr (fst p), snd p))
          else if take 4 (c # cs) = ''null'' then Ok (JNull, drop 3 cs)
          else if take 4 (c # cs) = ''true'' then Ok (JBool True, drop 3 cs)
          else if take 5 (c # cs) = ''false'' then Ok (JBool False, drop 4 cs)
          else if c = CHR ''-'' \<or> is_digit c then Beyond
          else Throws SyntaxError)"
| "parse_elements 0 acc s = Beyond"
| "parse_elements (Suc n) acc s =
     bind (parse_value n s) (\<lambda>p.
       case skip_ws (snd p) of
         [] \<Rightarrow> Throws SyntaxError
       | d # ds \<Rightarrow>
           if d = CHR '','' then parse_elements n (acc @ [fst p]) ds
           else if d = CHR '']'' then Ok (JArr (acc @ [fst p]), ds)
           else Throws SyntaxError)"
| "parse_members 0 acc s = Beyond"
| "parse_members (Suc n) acc s =
     (case skip_ws s of
        [] \<Rightarrow> Throws SyntaxError
      | c # cs \<Rightarrow>
          if c \<noteq> dq then Throws SyntaxError
          else bind (parse_chars cs) (\<lambda>key.
            case skip_ws (snd key) of
              [] \<Rightarrow> Throws SyntaxError
            | d # ds \<Rightarrow>
                if d \<noteq> CHR '':'' then Throws SyntaxError
                else bind (parse_value n ds) (\<lambda>p.
                  case skip_ws (snd p) of
                    [] \<Rightarrow> Throws SyntaxError
                  | e # es \<Rightarrow>
                      if e = CHR '','' then parse_members n (set_prop acc (fst key) (fst p)) es
                      else if e = CHR ''}'' then Ok (JObj (set_prop acc (fst key) (fst p)), es)
                      else Throws SyntaxError)))"

definition JSON_parse :: "string \<Rightarrow> json res" where
  "JSON_parse s =
     bind (parse_value (Suc (length s + length s)) s)
       (\<lambda>p. if skip_ws (snd p) = [] then Ok (fst p) else Throws SyntaxError)"

definition JSON_stringify :: "json \<Rightarrow> string" where
  "JSON_stringify v = ser [] v"

section \<open>The Store: readVideos and writeVideos\<close>

text \<open>
  The file system as the two helpers see it: the text of \<^verbatim>\<open>./videos.json\<close>
  (\<open>None\<close> when the file does not exist) and whether the process may read and write
  it. \<^verbatim>\<open>fs.readFile\<close> and \<^verbatim>\<open>fs.writeFile\<close> throw when they cannot.
\<close>

record fs =
  content :: "string option"
  readable :: bool
  writable :: bool

definition readFile :: "fs \<Rightarrow> string res" where
  "readFile s =
     (if readable s then (case content s of None \<Rightarrow> Throws IOError | Some data \<Rightarrow> Ok data)
      else Throws IOError)"

definition writeFile :: "fs \<Rightarrow> string \<Rightarrow> fs res" where
  "writeFile s data = (if writable s then Ok (s\<lparr>content := Some data\<rparr>) else Throws IOError)"

text \<open>
  \<^verbatim>\<open>
  const readVideos = async () => {
    try {
      const data = await fs.readFile(DATA_FILE, "utf-8");
      return JSON.parse(data);
    } catch (err) {
      console.error("Error reading videos.json:", err);
      return {};
    }
  };
  \<close>
\<close>

definition readVideos :: "fs \<Rightarrow> json res" where
  "readVideos s =
     (case bind (readFile s) JSON_parse of
        Ok videos \<Rightarrow> Ok videos
      | Throws err \<Rightarrow> Ok (JObj [])
      | Beyond \<Rightarrow> Beyond)"

text \<open>
  \<^verbatim>\<open>
  const writeVideos = async (videos) => {
    try {
      await fs.writeFile(DATA_FILE, JSON.stringify(videos, null, 2), "utf-8");
    } catch (err) {
      console.error("Error writing videos.json:", err);
    }
  };
  \<close>
\<close>

definition writeVideos :: "fs \<Rightarrow> json \<Rightarrow> fs" where
  "writeVideos s videos =
     (case writeFile s (JSON_stringify videos) of
        Ok s' \<Rightarrow> s'
      | Throws err \<Rightarrow> s
      | Beyond \<Rightarrow> s)"

section \<open>Requests and responses\<close>

text \<open>
  A response is its status and the value given to \<^verbatim>\<open>res.json\<close> (\<open>None\<close>
  when that value has no JSON text, so that the body is empty). A request that no route
  of a revision matches gets the framework's own 404 page.
\<close>

datatype response = Response nat "json option" | NotRouted

fun status :: "response \<Rightarrow> nat" where
  "status (Response n b) = n"
| "status NotRouted = 404"

definition error :: "string \<Rightarrow> json" where
  "error msg = JObj [(''error'', JStr msg)]"

definition ok_with :: "string \<Rightarrow> json \<Rightarrow> json" where
  "ok_with k v = JObj [(''ok'', JBool True), (k, v)]"

definition respond :: "nat \<Rightarrow> json \<Rightarrow> fs \<Rightarrow> (response \<times> fs) res" where
  "respond n body s = Ok (Response n (Some body), s)"

text \<open>
  \<^verbatim>\<open>res.json(x)\<close>: \<^verbatim>\<open>JSON.stringify\<close> of \<^verbatim>\<open>undefined\<close> or of a
  function is \<^verbatim>\<open>undefined\<close>, and the response is sent without a body;
  \<^verbatim>\<open>Object.prototype\<close> has no enumerable property and prints as \<^verbatim>\<open>{}\<close>.
\<close>

fun res_json :: "jsval \<Rightarrow> fs \<Rightarrow> (response \<times> fs) res" where
  "res_json (Val v) s = Ok (Response 200 (Some v), s)"
| "res_json Undefined s = Ok (Response 200 None, s)"
| "res_json Function s = Ok (Response 200 None, s)"
| "res_json Prototype s = Ok (Response 200 (Some (JObj [])), s)"
| "res_json (Num n) s = Beyond"

text \<open>
  \<^verbatim>\<open>const { title } = req.body\<close>: the field as a JSON value, or \<open>None\<close> for
  \<^verbatim>\<open>undefined\<close>.
\<close>

definition field :: "json \<Rightarrow> string \<Rightarrow> json option res" where
  "field body k =
     bind (get_json body k) (\<lambda>x.
       case x of
         Val v \<Rightarrow> Ok (Some v)
       | Undefined \<Rightarrow> Ok None
       | Num n \<Rightarrow> Beyond
       | Function \<Rightarrow> Beyond
       | Prototype \<Rightarrow> Beyond)"

fun given :: "json option \<Rightarrow> bool" where
  "given None = False"
| "given (Some v) = truthy_json v"

text \<open>
  \<^verbatim>\<open>if (!x) return ...\<close>: the value when it is truthy.
\<close>

fun required :: "json option \<Rightarrow> json option" where
  "required None = None"
| "required (Some v) = (if truthy_json v then Some v else None)"

text \<open>\<^verbatim>\<open>x || ""\<close>\<close>

fun or_empty :: "json option \<Rightarrow> json" where
  "or_empty None = JStr []"
| "or_empty (Some v) = (if truthy_json v then v else JStr [])"

text \<open>
  A property of an object literal; one whose value is \<^verbatim>\<open>undefined\<close> has no JSON
  text and is left out.
\<close>

fun entry_of :: "string \<Rightarrow> json option \<Rightarrow> (string \<times> json) list" where
  "entry_of k None = []"
| "entry_of k (Some v) = [(k, v)]"

text \<open>
  The value of a route parameter or of a body field used as a property key
  (\<^verbatim>\<open>videos[name]\<close>).
\<close>

fun key_of :: "json \<Rightarrow> string res" where
  "key_of (JStr s) = Ok s"
| "key_of (JBool b) = Ok (if b then ''true'' else ''false'')"
| "key_of JNull = Ok ''null''"
| "key_of (JArr xs) = Beyond"
| "key_of (JObj kvs) = Beyond"

text \<open>
  The handlers change an array or an object in place through the reference they read
  with \<^verbatim>\<open>x[k]\<close>. In the model the changed value is put back where it was read:
  an own property of an object, or an element of an array.
\<close>

fun put_back_json :: "json \<Rightarrow> string \<Rightarrow> json \<Rightarrow> json res" where
  "put_back_json (JObj kvs) k v =
     (if k \<in> fst ` set kvs then Ok (JObj (set_prop kvs k v)) else Beyond)"
| "put_back_json (JArr xs) k v =
     (case array_index k of
        Some i \<Rightarrow> if i < length xs then Ok (JArr (xs[i := v])) else Beyond
      | None \<Rightarrow> Beyond)"
| "put_back_json x k v = Beyond"

fun put_back :: "jsval \<Rightarrow> string \<Rightarrow> json \<Rightarrow> json res" where
  "put_back (Val x) k v = put_back_json x k v"
| "put_back x k v = Beyond"

text \<open>\<^verbatim>\<open>delete videos[name]\<close>\<close>

fun delete_json :: "json \<Rightarrow> string \<Rightarrow> json res" where
  "delete_json (JObj kvs) k = Ok (JObj (delete_prop kvs k))"
| "delete_json JNull k = Throws TypeError"
| "delete_json x k = Beyond"

text \<open>
  \<^verbatim>\<open>if (!videos[category]) videos[category] = fresh;\<close>
\<close>

definition ensure_category :: "json \<Rightarrow> string \<Rightarrow> json \<Rightarrow> json res" where
  "ensure_category videos category fresh =
     bind (get_json videos category) (\<lambda>entry.
       if \<not> truthy entry then set_json videos category fresh else Ok videos)"

section \<open>Video routes\<close>

text \<open>
  \<^verbatim>\<open>GET /api/videos\<close>, the same in every revision:
  \<^verbatim>\<open>
  const videos = await readVideos();
  res.json(videos);
  \<close>
\<close>

definition get_videos :: "fs \<Rightarrow> (response \<times> fs) res" where
  "get_videos s = bind (readVideos s) (\<lambda>videos. res_json (Val videos) s)"

text \<open>
  \<^verbatim>\<open>GET /api/videos/:category\<close>, flat catalog (part\_000, lines 44-53):
  \<^verbatim>\<open>
  if (!videos[category]) {
    return res.status(404).json({ error: "Category not found" });
  }
  res.json(videos[category]);
  \<close>
\<close>

definition get_category_flat :: "string \<Rightarrow> fs \<Rightarrow> (response \<times> fs) res" where
  "get_category_flat category s =
     bind (readVideos s) (\<lambda>videos.
     bind (get_json videos category) (\<lambda>entry.
       if \<not> truthy entry then respond 404 (error ''Category not found'') s
       else res_json entry s))"

text \<open>
  The same route on the catalog with thumbnails (server.js, lines 118-127 and 287-293):
  \<^verbatim>\<open>
  if (!videos[category]) return res.status(404).json({ error: "Category not found" });
  res.json(videos[category].videos);
  \<close>
\<close>

definition get_category_thumb :: "string \<Rightarrow> fs \<Rightarrow> (response \<times> fs) res" where
  "get_category_thumb category s =
     bind (readVideos s) (\<lambda>videos.
     bind (get_json videos category) (\<lambda>entry.
       if \<not> truthy entry then respond 404 (error ''Category not found'') s
       else bind (get entry ''videos'') (\<lambda>vs. res_json vs s)))"

text \<open>
  The same route in part\_001 (lines 46-52):
  \<^verbatim>\<open>
  res.json(videosData[category] || { videos: [] });
  \<close>
\<close>

definition get_category_default :: "string \<Rightarrow> fs \<Rightarrow> (response \<times> fs) res" where
  "get_category_default category s =
     bind (readVideos s) (\<lambda>videosData.
     bind (get_json videosData category) (\<lambda>entry.
       res_json (if truthy entry then entry else Val (JObj [(''videos'', JArr [])])) s))"

text \<open>
  \<^verbatim>\<open>POST /api/videos/:category\<close>, flat catalog (server.js, lines 40-55; part\_000,
  lines 56-71):
  \<^verbatim>\<open>
  const { title, description, url } = req.body;
  if (!title || !url) {
    return res.status(400).json({ error: "Title and URL are required" });
  }
  const videos = await readVideos();
  if (!videos[category]) videos[category] = [];
  videos[category].push({ title, description: description || "", url });
  await writeVideos(videos);
  res.json({ ok: true, videos: videos[category] });
  \<close>
\<close>

definition post_video_flat :: "string \<Rightarrow> json \<Rightarrow> fs \<Rightarrow> (response \<times> fs) res" where
  "post_video_flat category body s =
     bind (field body ''title'') (\<lambda>title.
     bind (field body ''description'') (\<lambda>description.
     bind (field body ''url'') (\<lambda>url.
       if \<not> given title \<or> \<not> given url
       then respond 400 (error ''Title and URL are required'') s
       else
         bind (readVideos s) (\<lambda>videos.
         bind (ensure_category videos category (JArr [])) (\<lambda>videos.
         bind (get_json videos category) (\<lambda>entry.
         bind (push entry
                 (JObj (entry_of ''title'' title @ [(''description'', or_empty description)]
                        @ entry_of ''url'' url))) (\<lambda>entry'.
         bind (put_back_json videos category entry') (\<lambda>videos.
           respond 200 (ok_with ''videos'' entry') (writeVideos s videos)))))))))"

text \<open>
  The same route on the catalog with thumbnails, creating the category when it is
  missing (server.js, lines 130-148):
  \<^verbatim>\<open>
  const { title, description, url, thumbnail } = req.body;
  if (!title || !url) {
    return res.status(400).json({ error: "Title and URL are required" });
  }
  const videos = await readVideos();
  if (!videos[category]) videos[category] = { categoryThumbnail: "", videos: [] };
  const videoData = { title, description: description || "", url };
  if (thumbnail) videoData.thumbnail = thumbnail;
  videos[category].videos.push(videoData);
  await writeVideos(videos);
  res.json({ ok: true, videos: videos[category].videos });
  \<close>
\<close>

definition new_video :: "json option \<Rightarrow> json option \<Rightarrow> json option \<Rightarrow> json option \<Rightarrow> json" where
  "new_video title description url thumbnail =
     JObj (entry_of ''title'' title @ [(''description'', or_empty description)] @ entry_of ''url'' url
           @ entry_of ''thumbnail'' (required thumbnail))"

definition push_video :: "json \<Rightarrow> string \<Rightarrow> json \<Rightarrow> fs \<Rightarrow> (response \<times> fs) res" where
  "push_video videos category video s =
     bind (get_json videos category) (\<lambda>entry.
     bind (get entry ''videos'') (\<lambda>vs.
     bind (push vs video) (\<lambda>vs'.
     bind (put_back entry ''videos'' vs') (\<lambda>entry'.
     bind (put_back_json videos category entry') (\<lambda>videos.
       respond 200 (ok_with ''videos'' vs') (writeVideos s videos))))))"

definition post_video_create :: "string \<Rightarrow> json \<Rightarrow> fs \<Rightarrow> (response \<times> fs) res" where
  "post_video_create category body s =
     bind (field body ''title'') (\<lambda>title.
     bind (field body ''description'') (\<lambda>description.
     bind (field body ''url'') (\<lambda>url.
     bind (field body ''thumbnail'') (\<lambda>thumbnail.
       if \<not> given title \<or> \<not> given url
       then respond 400 (error ''Title and URL are required'') s
       else
         bind (readVideos s) (\<lambda>videos.
         bind (ensure_category videos category
                 (JObj [(''categoryThumbnail'', JStr []), (''videos'', JArr [])])) (\<lambda>videos.
           push_video videos category (new_video title description url thumbnail) s))))))"

text \<open>
  The same route, refusing a missing category (server.js, lines 296-315):
  \<^verbatim>\<open>
  const { title, description, url, thumbnail } = req.body;
  if (!title || !url) return res.status(400).json({ error: "Title and URL are required" });
  const videosData = await readVideos();
  if (!videosData[category]) {
    return res.status(404).json({ error: "Category does not exist" });
  }
  const newVideo = { title, description: description || "", url };
  if (thumbnail) newVideo.thumbnail = thumbnail;
  videosData[category].videos.push(newVideo);
  await writeVideos(videosData);
  res.json({ ok: true, videos: videosData[category].videos });
  \<close>
\<close>

definition post_video_strict :: "string \<Rightarrow> json \<Rightarrow> fs \<Rightarrow> (response \<times> fs) res" where
  "post_video_strict category body s =
     bind (field body ''title'') (\<lambda>title.
     bind (field body ''description'') (\<lambda>description.
     bind (field body ''url'') (\<lambda>url.
     bind (field body ''thumbnail'') (\<lambda>thumbnail.
       if \<not> given title \<or> \<not> given url
       then respond 400 (error ''Title and URL are required'') s
       else
         bind (readVideos s) (\<lambda>videosData.
         bind (get_json videosData category) (\<lambda>entry.
           if \<not> truthy entry then respond 404 (error ''Category does not exist'') s
           else push_video videosData category
                  (new_video title description url thumbnail) s))))))"

text \<open>
  The same route in part\_001 (lines 55-76), where nothing checks the title and the URL:
  \<^verbatim>\<open>
  const { title, description, url, thumbnail } = req.body;
  const videosData = await readVideos();
  if (!videosData[category]) {
    return res.status(404).json({ error: "Category does not exist" });
  }
  const newVideo = { title, description: description || "", url };
  if (thumbnail) newVideo.thumbnail = thumbnail;
  videosData[category].videos.push(newVideo);
  await writeVideos(videosData);
  res.json({ ok: true, videos: videosData[category].videos });
  \<close>
\<close>

definition post_video_unchecked :: "string \<Rightarrow> json \<Rightarrow> fs \<Rightarrow> (response \<times> fs) res" where
  "post_video_unchecked category body s =
     bind (field body ''title'') (\<lambda>title.
     bind (field body ''description'') (\<lambda>description.
     bind (field body ''url'') (\<lambda>url.
     bind (field body ''thumbnail'') (\<lambda>thumbnail.
     bind (readVideos s) (\<lambda>videosData.
     bind (get_json videosData category) (\<lambda>entry.
       if \<not> truthy entry then respond 404 (error ''Category does not exist'') s
       else push_video videosData category
              (new_video title description url thumbnail) s))))))"

text \<open>
  \<^verbatim>\<open>PATCH /api/videos/:category/:index/thumbnail\<close> (server.js, lines 151-166):
  \<^verbatim>\<open>
  const { thumbnail } = req.body;
  if (!thumbnail) return res.status(400).json({ error: "Thumbnail URL is required" });
  const videos = await readVideos();
  if (!videos[category] || !videos[category].videos[index]) {
    return res.status(404).json({ error: "Video not found" });
  }
  videos[category].videos[index].thumbnail = thumbnail;
  await writeVideos(videos);
  res.json({ ok: true, videos: videos[category].videos });
  \<close>
\<close>

definition patch_video_thumbnail :: "string \<Rightarrow> string \<Rightarrow> json \<Rightarrow> fs \<Rightarrow> (response \<times> fs) res" where
  "patch_video_thumbnail category index body s =
     bind (field body ''thumbnail'') (\<lambda>thumbnail.
       case required thumbnail of
         None \<Rightarrow> respond 400 (error ''Thumbnail URL is required'') s
       | Some thumbnail \<Rightarrow>
         bind (readVideos s) (\<lambda>videos.
         bind (get_json videos category) (\<lambda>entry.
           if \<not> truthy entry then respond 404 (error ''Video not found'') s
           else
             bind (get entry ''videos'') (\<lambda>vs.
             bind (get vs index) (\<lambda>video.
               if \<not> truthy video then respond 404 (error ''Video not found'') s
               else
                 bind (set_member video ''thumbnail'' thumbnail) (\<lambda>video'.
                 bind (put_back vs index video') (\<lambda>vs'.
                 bind (put_back entry ''videos'' vs') (\<lambda>entry'.
                 bind (put_back_json videos category entry') (\<lambda>videos.
                   respond 200 (ok_with ''videos'' vs') (writeVideos s videos))))))))))"

text \<open>
  \<^verbatim>\<open>DELETE /api/videos/:category/:index\<close>, flat catalog (server.js, lines 58-70;
  part\_000, lines 74-86):
  \<^verbatim>\<open>
  const videos = await readVideos();
  if (!videos[category] || !videos[category][index]) {
    return res.status(404).json({ error: "Video not found" });
  }
  videos[category].splice(index, 1);
  await writeVideos(videos);
  res.json({ ok: true, videos: videos[category] });
  \<close>
\<close>

definition delete_video_flat :: "string \<Rightarrow> string \<Rightarrow> fs \<Rightarrow> (response \<times> fs) res" where
  "delete_video_flat category index s =
     bind (readVideos s) (\<lambda>videos.
     bind (get_json videos category) (\<lambda>entry.
       if \<not> truthy entry then respond 404 (error ''Video not found'') s
       else
         bind (get entry index) (\<lambda>video.
           if \<not> truthy video then respond 404 (error ''Video not found'') s
           else
             bind (splice1 entry index) (\<lambda>entry'.
             bind (put_back_json videos category entry') (\<lambda>videos.
               respond 200 (ok_with ''videos'' entry') (writeVideos s videos))))))"

text \<open>
  The same route on the catalog with thumbnails (server.js, lines 169-181 and 318-330;
  part\_001, lines 78-90):
  \<^verbatim>\<open>
  const videos = await readVideos();
  if (!videos[category] || !videos[category].videos[index]) {
    return res.status(404).json({ error: "Video not found" });
  }
  videos[category].videos.splice(index, 1);
  await writeVideos(videos);
  res.json({ ok: true, videos: videos[category].videos });
  \<close>
\<close>

definition delete_video_thumb :: "string \<Rightarrow> string \<Rightarrow> fs \<Rightarrow> (response \<times> fs) res" where
  "delete_video_thumb category index s =
     bind (readVideos s) (\<lambda>videos.
     bind (get_json videos category) (\<lambda>entry.
       if \<not> truthy entry then respond 404 (error ''Video not found'') s
       else
         bind (get entry ''videos'') (\<lambda>vs.
         bind (get vs index) (\<lambda>video.
           if \<not> truthy video then respond 404 (error ''Video not found'') s
           else
             bind (splice1 vs index) (\<lambda>vs'.
             bind (put_back entry ''videos'' vs') (\<lambda>entry'.
             bind (put_back_json videos category entry') (\<lambda>videos.
               respond 200 (ok_with ''videos'' vs') (writeVideos s videos))))))))"

section \<open>Category routes\<close>

text \<open>
  \<^verbatim>\<open>GET /api/categories\<close>, flat catalog (part\_000, lines 124-127):
  \<^verbatim>\<open>
  const videos = await readVideos();
  res.json(Object.keys(videos));
  \<close>
\<close>

definition names :: "string list \<Rightarrow> json" where
  "names ks = JArr (map JStr ks)"

definition get_categories_flat :: "fs \<Rightarrow> (response \<times> fs) res" where
  "get_categories_flat s =
     bind (readVideos s) (\<lambda>videos.
     bind (Object_keys videos) (\<lambda>ks. respond 200 (names ks) s))"

text \<open>
  The same route on the catalog with thumbnails (server.js, lines 231-238 and 337-344;
  part\_001, lines 97-104):
  \<^verbatim>\<open>
  const videos = await readVideos();
  const categories = Object.keys(videos).map((cat) => ({
    name: cat,
    categoryThumbnail: videos[cat].categoryThumbnail || "",
  }));
  res.json(categories);
  \<close>
\<close>

definition category_info :: "json \<Rightarrow> string \<Rightarrow> json res" where
  "category_info videos cat =
     bind (get_json videos cat) (\<lambda>entry.
     bind (get entry ''categoryThumbnail'') (\<lambda>t.
       case t of
         Val v \<Rightarrow> Ok (JObj [(''name'', JStr cat), (''categoryThumbnail'', or_empty (Some v))])
       | Undefined \<Rightarrow> Ok (JObj [(''name'', JStr cat), (''categoryThumbnail'', or_empty None)])
       | Num n \<Rightarrow> Beyond
       | Function \<Rightarrow> Beyond
       | Prototype \<Rightarrow> Beyond))"

fun map_res :: "('a \<Rightarrow> 'b res) \<Rightarrow> 'a list \<Rightarrow> 'b list res" where
  "map_res f [] = Ok []"
| "map_res f (x # xs) = bind (f x) (\<lambda>y. bind (map_res f xs) (\<lambda>ys. Ok (y # ys)))"

definition get_categories_thumb :: "fs \<Rightarrow> (response \<times> fs) res" where
  "get_categories_thumb s =
     bind (readVideos s) (\<lambda>videos.
     bind (Object_keys videos) (\<lambda>ks.
     bind (map_res (category_info videos) ks) (\<lambda>categories.
       respond 200 (JArr categories) s)))"

text \<open>
  \<^verbatim>\<open>POST /api/categories\<close>, flat catalog (part\_000, lines 93-106):
  \<^verbatim>\<open>
  const { name } = req.body;
  if (!name) return res.status(400).json({ error: "Category name is required" });
  const videos = await readVideos();
  if (videos[name]) {
    return res.status(400).json({ error: "Category already exists" });
  }
  videos[name] = [];
  await writeVideos(videos);
  res.json({ ok: true, categories: Object.keys(videos) });
  \<close>
  On the catalog with thumbnails (server.js, lines 188-199 and 347-358; part\_001, lines
  107-118) the new entry is \<^verbatim>\<open>{ categoryThumbnail: "", videos: [] }\<close> instead.
\<close>

definition post_category :: "json \<Rightarrow> json \<Rightarrow> fs \<Rightarrow> (response \<times> fs) res" where
  "post_category fresh body s =
     bind (field body ''name'') (\<lambda>name.
       case required name of
         None \<Rightarrow> respond 400 (error ''Category name is required'') s
       | Some name \<Rightarrow>
         bind (key_of name) (\<lambda>name.
         bind (readVideos s) (\<lambda>videos.
         bind (get_json videos name) (\<lambda>entry.
           if truthy entry then respond 400 (error ''Category already exists'') s
           else
             bind (set_json videos name fresh) (\<lambda>videos.
             bind (Object_keys videos) (\<lambda>ks.
               respond 200 (ok_with ''categories'' (names ks)) (writeVideos s videos)))))))"

definition post_category_flat :: "json \<Rightarrow> fs \<Rightarrow> (response \<times> fs) res" where
  "post_category_flat = post_category (JArr [])"

definition post_category_thumb :: "json \<Rightarrow> fs \<Rightarrow> (response \<times> fs) res" where
  "post_category_thumb =
     post_category (JObj [(''categoryThumbnail'', JStr []), (''videos'', JArr [])])"

text \<open>
  \<^verbatim>\<open>PATCH /api/categories/:name/thumbnail\<close> (server.js, lines 202-215 and 361-374;
  part\_001, lines 121-134):
  \<^verbatim>\<open>
  const { thumbnail } = req.body;
  if (!thumbnail) return res.status(400).json({ error: "Thumbnail URL is required" });
  const videos = await readVideos();
  if (!videos[name]) return res.status(404).json({ error: "Category not found" });
  videos[name].categoryThumbnail = thumbnail;
  await writeVideos(videos);
  res.json({ ok: true, thumbnail });
  \<close>
\<close>

definition patch_category_thumbnail :: "string \<Rightarrow> json \<Rightarrow> fs \<Rightarrow> (response \<times> fs) res" where
  "patch_category_thumbnail name body s =
     bind (field body ''thumbnail'') (\<lambda>thumbnail.
       case required thumbnail of
         None \<Rightarrow> respond 400 (error ''Thumbnail URL is required'') s
       | Some thumbnail \<Rightarrow>
         bind (readVideos s) (\<lambda>videos.
         bind (get_json videos name) (\<lambda>entry.
           if \<not> truthy entry then respond 404 (error ''Category not found'') s
           else
             bind (set_member entry ''categoryThumbnail'' thumbnail) (\<lambda>entry'.
             bind (put_back_json videos name entry') (\<lambda>videos.
               respond 200 (ok_with ''thumbnail'' thumbnail) (writeVideos s videos))))))"

text \<open>
  \<^verbatim>\<open>DELETE /api/categories/:name\<close> (server.js, lines 218-228 and 377-387; part\_000,
  lines 109-121; part\_001, lines 137-147):
  \<^verbatim>\<open>
  const videos = await readVideos();
  if (!videos[name]) return res.status(404).json({ error: "Category not found" });
  delete videos[name];
  await writeVideos(videos);
  res.json({ ok: true, categories: Object.keys(videos) });
  \<close>
\<close>

definition delete_category :: "string \<Rightarrow> fs \<Rightarrow> (response \<times> fs) res" where
  "delete_category name s =
     bind (readVideos s) (\<lambda>videos.
     bind (get_json videos name) (\<lambda>entry.
       if \<not> truthy entry then respond 404 (error ''Category not found'') s
       else
         bind (delete_json videos name) (\<lambda>videos.
         bind (Object_keys videos) (\<lambda>ks.
           respond 200 (ok_with ''categories'' (names ks)) (writeVideos s videos)))))"

section \<open>The five revisions of the server\<close>

text \<open>
  The sources hold five revisions of \<^verbatim>\<open>server.js\<close>: three in
  \<^verbatim>\<open>src/server.js\<close> (lines 1-74, 74-243 and 243-392), one in part\_000 and one in
  part\_001. Each registers its own set of routes.
\<close>

datatype revision = Server_1 | Server_2 | Server_3 | Part_000 | Part_001

datatype request =
    GET_videos
  | GET_category string
  | POST_video string json
  | PATCH_video_thumbnail string string json
  | DELETE_video string string
  | GET_categories
  | POST_category json
  | PATCH_category_thumbnail string json
  | DELETE_category string

definition not_routed :: "fs \<Rightarrow> (response \<times> fs) res" where
  "not_routed s = Ok (NotRouted, s)"

fun handle :: "revision \<Rightarrow> request \<Rightarrow> fs \<Rightarrow> (response \<times> fs) res" where
  "handle Server_1 GET_videos = get_videos"
| "handle Server_1 (POST_video c b) = post_video_flat c b"
| "handle Server_1 (DELETE_video c i) = delete_video_flat c i"
| "handle Server_1 r = not_routed"
| "handle Server_2 GET_videos = get_videos"
| "handle Server_2 (GET_category c) = get_category_thumb c"
| "handle Server_2 (POST_video c b) = post_video_create c b"
| "handle Server_2 (PATCH_video_thumbnail c i b) = patch_video_thumbnail c i b"
| "handle Server_2 (DELETE_video c i) = delete_video_thumb c i"
| "handle Server_2 GET_categories = get_categories_thumb"
| "handle Server_2 (POST_category b) = post_category_thumb b"
| "handle Server_2 (PATCH_category_thumbnail n b) = patch_category_thumbnail n b"
| "handle Server_2 (DELETE_category n) = delete_category n"
| "handle Server_3 GET_videos = get_videos"
| "handle Server_3 (GET_category c) = get_category_thumb c"
| "handle Server_3 (POST_video c b) = post_video_strict c b"
| "handle Server_3 (PATCH_video_thumbnail c i b) = not_routed"
| "handle Server_3 (DELETE_video c i) = delete_video_thumb c i"
| "handle Server_3 GET_categories = get_categories_thumb"
| "handle Server_3 (POST_category b) = post_category_thumb b"
| "handle Server_3 (PATCH_category_thumbnail n b) = patch_category_thumbnail n b"
| "handle Server_3 (DELETE_category n) = delete_category n"
| "handle Part_000 GET_videos = get_videos"
| "handle Part_000 (GET_category c) = get_category_flat c"
| "handle Part_000 (POST_video c b) = post_video_flat c b"
| "handle Part_000 (PATCH_video_thumbnail c i b) = not_routed"
| "handle Part_000 (DELETE_video c i) = delete_video_flat c i"
| "handle Part_000 GET_categories = get_categories_flat"
| "handle Part_000 (POST_category b) = post_category_flat b"
| "handle Part_000 (PATCH_category_thumbnail n b) = not_routed"
| "handle Part_000 (DELETE_category n) = delete_category n"
| "handle Part_001 GET_videos = get_videos"
| "handle Part_001 (GET_category c) = get_category_default c"
| "handle Part_001 (POST_video c b) = post_video_unchecked c b"
| "handle Part_001 (PATCH_video_thumbnail c i b) = not_routed"
| "handle Part_001 (DELETE_video c i) = delete_video_thumb c i"
| "handle Part_001 GET_categories = get_categories_thumb"
| "handle Part_001 (POST_category b) = post_category_thumb b"
| "handle Part_001 (PATCH_category_thumbnail n b) = patch_category_thumbnail n b"
| "handle Part_001 (DELETE_category n) = delete_category n"

section \<open>Catalogs\<close>

text \<open>
  The order of the own keys of an object: array indices first, ascending, then the other
  keys. A list of properties stands for a JavaScript object when its keys are in that
  order (and so distinct); every value \<^verbatim>\<open>JSON.parse\<close> returns is of this kind.
\<close>

definition key_before :: "string \<Rightarrow> string \<Rightarrow> bool" where
  "key_before a b =
     (case array_index b of
        None \<Rightarrow> a \<noteq> b
      | Some j \<Rightarrow> (case array_index a of Some i \<Rightarrow> i < j | None \<Rightarrow> False))"

fun json_wf :: "json \<Rightarrow> bool" where
  "json_wf (JArr xs) = list_all json_wf xs"
| "json_wf (JObj kvs) =
     (sorted_wrt key_before (map fst kvs) \<and> list_all (\<lambda>kv. json_wf (snd kv)) kvs)"
| "json_wf v = True"

text \<open>
  The two shapes of a category: the flat one is the sequence of its videos, the one with
  thumbnails is \<^verbatim>\<open>{ categoryThumbnail, videos }\<close>. A video is an object.
\<close>

datatype schema = Flat | Thumbnailed

fun schema_of :: "revision \<Rightarrow> schema" where
  "schema_of Server_1 = Flat"
| "schema_of Server_2 = Thumbnailed"
| "schema_of Server_3 = Thumbnailed"
| "schema_of Part_000 = Flat"
| "schema_of Part_001 = Thumbnailed"

fun is_video :: "json \<Rightarrow> bool" where
  "is_video (JObj kvs) = True"
| "is_video v = False"

fun category_videos :: "schema \<Rightarrow> json \<Rightarrow> json list option" where
  "category_videos Flat (JArr vs) = Some vs"
| "category_videos Thumbnailed (JObj ps) =
     (case map_of ps ''videos'' of Some (JArr vs) \<Rightarrow> Some vs | _ \<Rightarrow> None)"
| "category_videos sch c = None"

fun with_videos :: "schema \<Rightarrow> json \<Rightarrow> json list \<Rightarrow> json" where
  "with_videos Thumbnailed (JObj ps) vs = JObj (set_prop ps ''videos'' (JArr vs))"
| "with_videos sch c vs = JArr vs"

definition is_category :: "schema \<Rightarrow> json \<Rightarrow> bool" where
  "is_category sch c =
     (case category_videos sch c of Some vs \<Rightarrow> list_all is_video vs | None \<Rightarrow> False)"

fun is_catalog :: "schema \<Rightarrow> json \<Rightarrow> bool" where
  "is_catalog sch (JObj kvs) =
     (json_wf (JObj kvs) \<and> list_all (\<lambda>kv. is_category sch (snd kv)) kvs)"
| "is_catalog sch v = False"

text \<open>The entry of a category in a document.\<close>

fun entry :: "json \<Rightarrow> string \<Rightarrow> json option" where
  "entry (JObj kvs) k = map_of kvs k"
| "entry v k = None"

fun loaded :: "json res \<Rightarrow> json" where
  "loaded (Ok v) = v"
| "loaded r = JNull"

text \<open>The category a changing request is addressed to.\<close>

fun target :: "request \<Rightarrow> string option" where
  "target (POST_video c b) = Some c"
| "target (PATCH_video_thumbnail c i b) = Some c"
| "target (DELETE_video c i) = Some c"
| "target (POST_category b) =
     (case field b ''name'' of
        Ok (Some n) \<Rightarrow> (case key_of n of Ok k \<Rightarrow> Some k | _ \<Rightarrow> None)
      | _ \<Rightarrow> None)"
| "target (PATCH_category_thumbnail n b) = Some n"
| "target (DELETE_category n) = Some n"
| "target r = None"

text \<open>What \<^verbatim>\<open>GET /api/categories\<close> reports for one category with thumbnails.\<close>

definition listing :: "string \<times> json \<Rightarrow> json" where
  "listing kv =
     JObj [(''name'', JStr (fst kv)),
           (''categoryThumbnail'', or_empty (entry (snd kv) ''categoryThumbnail''))]"

fun val_wf :: "jsval \<Rightarrow> bool" where
  "val_wf (Val v) = json_wf v"
| "val_wf x = True"

text \<open>The body of a request, \<^verbatim>\<open>{}\<close> when the route reads none.\<close>

fun body_of :: "request \<Rightarrow> json" where
  "body_of (POST_video c b) = b"
| "body_of (PATCH_video_thumbnail c i b) = b"
| "body_of (POST_category b) = b"
| "body_of (PATCH_category_thumbnail n b) = b"
| "body_of r = JObj []"

text \<open>
  What a request addressed to the category \<open>c\<close> may change: either nothing, or the
  document is written with every category but \<open>c\<close> as it was loaded.
\<close>

definition changes_only :: "string \<Rightarrow> fs \<Rightarrow> fs \<Rightarrow> bool" where
  "changes_only c s s' =
     (s' = s \<or>
      (\<exists>videos saved. readVideos s = Ok videos \<and> s' = writeVideos s saved \<and> json_wf saved
         \<and> (\<forall>k. k \<noteq> c \<longrightarrow> entry saved k = entry videos k)))"

text \<open>A first character of a JSON value that is not a number.\<close>

definition opens :: "string \<Rightarrow> bool" where
  "opens t = (case t of [] \<Rightarrow> False | c # cs \<Rightarrow> c \<in> set ''ntf[{'' \<or> c = dq)"

section \<open>Writing a document and reading it back\<close>

lemma bind_eq_Ok: "(bind m f = Ok y) = (\<exists>x. m = Ok x \<and> f x = Ok y)"
  by (cases m) auto

subsection \<open>Strings\<close>

lemma hex_digit_inverse: "k < 16 \<Longrightarrow> is_hex (hex_digit k) \<and> hex_val (hex_digit k) = k"
proof -
  assume "k < 16"
  then have "k = 0 \<or> k = 1 \<or> k = 2 \<or> k = 3 \<or> k = 4 \<or> k = 5 \<or> k = 6 \<or> k = 7
    \<or> k = 8 \<or> k = 9 \<or> k = 10 \<or> k = 11 \<or> k = 12 \<or> k = 13 \<or> k = 14 \<or> k = 15"
    by arith
  then show ?thesis
    by (elim disjE) (simp_all add: hex_digit_def is_hex_def hex_val_def is_digit_def)
qed

lemma control_escape:
  assumes "(of_char c :: nat) < 32"
  shows "char_of (16 * hex_val (hex_digit (of_char c div 16)) + hex_val (hex_digit (of_char c mod 16)) :: nat) = c"
    and "is_hex (hex_digit (of_char c div 16))" and "is_hex (hex_digit (of_char c mod 16))"
    and "hex_val (hex_digit (of_char c div 16)) < 16"
proof -
  have a: "(of_char c :: nat) div 16 < 16" using assms by simp
  have b: "(of_char c :: nat) mod 16 < 16" by simp
  show "char_of (16 * hex_val (hex_digit (of_char c div 16)) + hex_val (hex_digit (of_char c mod 16)) :: nat) = c"
    using hex_digit_inverse [OF a] hex_digit_inverse [OF b] by simp
  show "is_hex (hex_digit (of_char c div 16))" using hex_digit_inverse [OF a] by simp
  show "is_hex (hex_digit (of_char c mod 16))" using hex_digit_inverse [OF b] by simp
  show "hex_val (hex_digit (of_char c div 16)) < 16" using hex_digit_inverse [OF a] a by simp
qed

lemma parse_chars_escape: "parse_chars (escape c @ t) = cons_char c (parse_chars t)"
proof (cases "(of_char c :: nat) < 32")
  case True
  note ctl = control_escape [OF True]
  show ?thesis
  proof (cases "c \<in> {CHR 0x08, CHR 0x09, CHR 0x0A, CHR 0x0C, CHR 0x0D}")
    case True
    then show ?thesis by (auto simp: escape_def unescape_def)
  next
    case False
    have ne: "c \<noteq> dq" "c \<noteq> bs" using True by auto
    show ?thesis using False ne True ctl
      by (simp add: escape_def is_hex_def hex_val_def is_digit_def)
  qed
next
  case False
  then show ?thesis
    by (cases "c = dq \<or> c = bs") (auto simp: escape_def unescape_def)
qed

lemma parse_chars_quote: "parse_chars (concat (map escape s) @ dq # rest) = Ok (s, rest)"
  by (induction s) (simp_all add: parse_chars_escape cons_char_def)

subsection \<open>Values\<close>

lemma skip_ws_ws: "list_all is_ws w \<Longrightarrow> skip_ws (w @ t) = skip_ws t"
  by (induction w) (auto simp: skip_ws_def)

lemma opens_skip_ws: "opens t \<Longrightarrow> skip_ws t = t"
  by (cases t) (auto simp: opens_def skip_ws_def is_ws_def)

lemma opens_Cons: "opens t \<Longrightarrow> \<exists>c cs. t = c # cs \<and> c \<noteq> CHR '']'' \<and> c \<noteq> CHR ''}''"
  by (cases t) (auto simp: opens_def)

lemma ser_opens: "opens (ser ind v @ t)"
proof (cases v)
  case (JArr xs)
  then show ?thesis by (cases xs) (simp_all add: opens_def)
next
  case (JObj kvs)
  then show ?thesis by (cases kvs) (simp_all add: opens_def)
qed (simp_all add: opens_def quote_def)

lemma ser_elements_opens: "opens (ser_elements ind x xs @ t)"
  using ser_opens [of ind x] by (cases xs) simp_all

lemma ser_members_opens: "opens (ser_members ind kv kvs @ t)"
  by (cases kvs) (simp_all add: opens_def quote_def)

lemma parse_value_ws: "list_all is_ws w \<Longrightarrow> parse_value n (w @ t) = parse_value n t"
  by (cases n) (simp_all add: skip_ws_ws)

lemma parse_members_ws: "list_all is_ws w \<Longrightarrow> parse_members n acc (w @ t) = parse_members n acc t"
  by (cases n) (simp_all add: skip_ws_ws)

lemma parse_elements_ws: "list_all is_ws w \<Longrightarrow> parse_elements n acc (w @ t) = parse_elements n acc t"
  by (cases n) (simp_all add: parse_value_ws)

lemma parse_value_space: "parse_value n (CHR '' '' # t) = parse_value n t"
  by (cases n) (simp_all add: skip_ws_def is_ws_def)

lemma skip_ws_punct:
  "skip_ws (CHR '':'' # t) = CHR '':'' # t" "skip_ws (CHR '','' # t) = CHR '','' # t"
  "skip_ws (CHR '']'' # t) = CHR '']'' # t" "skip_ws (CHR ''}'' # t) = CHR ''}'' # t"
  by (simp_all add: skip_ws_def is_ws_def)

lemma newline_ws: "list_all is_ws ind \<Longrightarrow> list_all is_ws (newline ind)"
  by (simp add: newline_def is_ws_def)

lemma indent_ws: "list_all is_ws ind \<Longrightarrow> list_all is_ws (ind @ ''  '')"
  by (simp add: is_ws_def)

lemma set_prop_append:
  assumes "\<forall>a \<in> fst ` set acc. key_before a k"
  shows "set_prop acc k v = acc @ [(k, v)]"
proof -
  have notin: "k \<notin> fst ` set acc"
    using assms by (auto simp: key_before_def split: option.splits)
  show ?thesis
  proof (cases "array_index k")
    case None
    with notin show ?thesis by (simp add: set_prop_def)
  next
    case (Some i)
    have "\<forall>kv \<in> set acc. index_below i kv"
      using assms Some by (auto simp: key_before_def index_below_def split: option.splits)
    then have "takeWhile (index_below i) acc = acc" "dropWhile (index_below i) acc = []"
      by simp_all
    with notin Some show ?thesis by (simp add: set_prop_def)
  qed
qed


lemma roundtrip_aux:
  "list_all is_ws ind \<Longrightarrow> json_wf v \<Longrightarrow> length (ser ind v) \<le> n \<Longrightarrow>
     parse_value n (ser ind v @ rest) = Ok (v, rest)"
  "list_all is_ws ind \<Longrightarrow> list_all json_wf (x # xs) \<Longrightarrow> length (ser_elements ind x xs) < n \<Longrightarrow>
     list_all is_ws w \<Longrightarrow>
     parse_elements n es (ser_elements ind x xs @ w @ CHR '']'' # rest) = Ok (JArr (es @ x # xs), rest)"
  "list_all is_ws ind \<Longrightarrow> json_wf (JObj (acc @ kv # kvs)) \<Longrightarrow>
     length (ser_members ind kv kvs) < n \<Longrightarrow> list_all is_ws w \<Longrightarrow>
     parse_members n acc (ser_members ind kv kvs @ w @ CHR ''}'' # rest)
       = Ok (JObj (acc @ kv # kvs), rest)"
proof (induction ind v and ind x xs and ind kv kvs
       arbitrary: n rest and n es rest w and n acc rest w
       rule: ser_ser_elements_ser_members.induct)
  case (1 ind)
  then show ?case by (cases n) (simp_all add: skip_ws_def is_ws_def)
next
  case (2 ind b)
  then show ?case by (cases n; cases b) (simp_all add: skip_ws_def is_ws_def)
next
  case (3 ind s)
  then show ?case
    by (cases n) (simp_all add: quote_def skip_ws_def is_ws_def parse_chars_quote)
next
  case (4 ind)
  then show ?case by (cases n) (simp_all add: skip_ws_def is_ws_def)
next
  case (5 ind x xs)
  from 5(4) obtain m where n: "n = Suc m" by (cases n) auto
  let ?t = "ser_elements (ind @ ''  '') x xs @ newline ind @ CHR '']'' # rest"
  have ws: "list_all is_ws (newline (ind @ ''  ''))" "list_all is_ws (newline ind)"
    using newline_ws [OF indent_ws [OF 5(2)]] newline_ws [OF 5(2)] by simp_all
  have sk: "skip_ws (newline (ind @ ''  '') @ ?t) = ?t"
    using ws ser_elements_opens [of "ind @ ''  ''" x xs]
    by (simp add: skip_ws_ws opens_skip_ws)
  obtain c cs where c: "?t = c # cs" "c \<noteq> CHR '']''"
    using opens_Cons [OF ser_elements_opens [of "ind @ ''  ''" x xs "newline ind @ CHR '']'' # rest"]]
    by auto
  have len: "length (ser_elements (ind @ ''  '') x xs) < m"
    using 5(4) n by (simp add: newline_def)
  have "parse_elements m [] ?t = Ok (JArr (x # xs), rest)"
    using 5(1) [OF indent_ws [OF 5(2)] _ len ws(2), of "[]" rest] 5(3) by simp
  then show ?case
    using n sk c ws by (simp add: skip_ws_def is_ws_def parse_elements_ws)
next
  case (6 ind)
  then show ?case by (cases n) (simp_all add: skip_ws_def is_ws_def)
next
  case (7 ind kv kvs)
  from 7(4) obtain m where n: "n = Suc m" by (cases n) auto
  let ?t = "ser_members (ind @ ''  '') kv kvs @ newline ind @ CHR ''}'' # rest"
  have ws: "list_all is_ws (newline (ind @ ''  ''))" "list_all is_ws (newline ind)"
    using newline_ws [OF indent_ws [OF 7(2)]] newline_ws [OF 7(2)] by simp_all
  have sk: "skip_ws (newline (ind @ ''  '') @ ?t) = ?t"
    using ws ser_members_opens [of "ind @ ''  ''" kv kvs]
    by (simp add: skip_ws_ws opens_skip_ws)
  obtain c cs where c: "?t = c # cs" "c \<noteq> CHR ''}''"
    using opens_Cons [OF ser_members_opens [of "ind @ ''  ''" kv kvs "newline ind @ CHR ''}'' # rest"]]
    by auto
  have len: "length (ser_members (ind @ ''  '') kv kvs) < m"
    using 7(4) n by (simp add: newline_def)
  have "parse_members m [] ?t = Ok (JObj (kv # kvs), rest)"
    using 7(1) [OF indent_ws [OF 7(2)] _ len ws(2), of "[]" rest] 7(3) by simp
  then show ?case
    using n sk c ws by (simp add: skip_ws_def is_ws_def parse_members_ws)
next
  case (8 ind x)
  from 8(4) obtain m where n: "n = Suc m" by (cases n) auto
  have "parse_value m (ser ind x @ w @ CHR '']'' # rest) = Ok (x, w @ CHR '']'' # rest)"
    using 8(1) [OF 8(2)] 8(3,4) n by simp
  then show ?case
    using n 8(5) by (simp add: skip_ws_ws) (simp add: skip_ws_def is_ws_def)
next
  case (9 ind x y ys)
  from 9(5) obtain m where n: "n = Suc m" by (cases n) auto
  let ?r = "CHR '','' # newline ind @ ser_elements ind y ys @ w @ CHR '']'' # rest"
  have "parse_value m (ser ind x @ ?r) = Ok (x, ?r)"
    using 9(1) [OF 9(3)] 9(4,5) n by simp
  moreover have "parse_elements m (es @ [x])
      (newline ind @ ser_elements ind y ys @ w @ CHR '']'' # rest)
      = Ok (JArr ((es @ [x]) @ y # ys), rest)"
    using 9(2) [OF 9(3) _ _ 9(6)] 9(4,5) n
    by (simp add: parse_elements_ws [OF newline_ws [OF 9(3)]])
  ultimately show ?case
    using n by (simp add: skip_ws_def is_ws_def)
next
  case (10 ind kv)
  from 10(4) obtain m where n: "n = Suc m" by (cases n) auto
  let ?r = "w @ CHR ''}'' # rest"
  have v: "parse_value m (ser ind (snd kv) @ ?r) = Ok (snd kv, ?r)"
    using 10(1) [OF 10(2)] 10(3,4) n by simp
  have sp: "set_prop acc (fst kv) (snd kv) = acc @ [kv]"
    using 10(3) by (intro set_prop_append [of acc "fst kv" "snd kv", simplified])
      (auto simp: sorted_wrt_append)
  have sk: "skip_ws (ser_members ind kv [] @ ?r) = ser_members ind kv [] @ ?r"
    by (rule opens_skip_ws [OF ser_members_opens])
  show ?case
    using n sk v sp 10(5)
    by (simp add: quote_def parse_chars_quote parse_value_space skip_ws_ws skip_ws_punct)
next
  case (11 ind kv kv' kvs)
  from 11(5) obtain m where n: "n = Suc m" by (cases n) auto
  let ?r = "CHR '','' # newline ind @ ser_members ind kv' kvs @ w @ CHR ''}'' # rest"
  have v: "parse_value m (ser ind (snd kv) @ ?r) = Ok (snd kv, ?r)"
    using 11(1) [OF 11(3)] 11(4,5) n by simp
  have sp: "set_prop acc (fst kv) (snd kv) = acc @ [kv]"
    using 11(4) by (intro set_prop_append [of acc "fst kv" "snd kv", simplified])
      (auto simp: sorted_wrt_append)
  have m: "parse_members m (acc @ [kv])
      (newline ind @ ser_members ind kv' kvs @ w @ CHR ''}'' # rest)
      = Ok (JObj ((acc @ [kv]) @ kv' # kvs), rest)"
    using 11(2) [OF 11(3) _ _ 11(6), of "acc @ [kv]"] 11(4,5) n
    by (simp add: parse_members_ws [OF newline_ws [OF 11(3)]])
  have sk: "skip_ws (ser_members ind kv (kv' # kvs) @ w @ CHR ''}'' # rest)
      = ser_members ind kv (kv' # kvs) @ w @ CHR ''}'' # rest"
    by (rule opens_skip_ws [OF ser_members_opens])
  show ?case
    using n sk v sp m
    by (simp add: quote_def parse_chars_quote parse_value_space skip_ws_punct)
qed

lemma roundtrip: "json_wf v \<Longrightarrow> JSON_parse (JSON_stringify v) = Ok v"
  using roundtrip_aux(1) [of "[]" v "Suc (length (ser [] v) + length (ser [] v))" "[]"]
  by (simp add: JSON_parse_def JSON_stringify_def skip_ws_def)

subsection \<open>Array indices are canonical\<close>

lemma digit_val_inj: "is_digit c \<Longrightarrow> is_digit d \<Longrightarrow> digit_val c = digit_val d \<Longrightarrow> c = d"
  by (auto simp: is_digit_def digit_val_def)

lemma digit_val_less: "is_digit c \<Longrightarrow> digit_val c < 10"
  by (auto simp: is_digit_def digit_val_def)

lemma digit_val_pos: "is_digit c \<Longrightarrow> c \<noteq> CHR ''0'' \<Longrightarrow> 0 < digit_val c"
  by (auto simp: is_digit_def digit_val_def)

lemma decimal_snoc: "decimal (s @ [c]) = 10 * decimal s + digit_val c"
  by (simp add: decimal_def)

lemma foldl_decimal_ge: "n \<le> foldl (\<lambda>n c. 10 * n + digit_val c) n cs"
proof (induction cs arbitrary: n)
  case Nil
  show ?case by simp
next
  case (Cons c cs)
  have "n \<le> 10 * n + digit_val c" by simp
  also have "\<dots> \<le> foldl (\<lambda>n c. 10 * n + digit_val c) (10 * n + digit_val c) cs"
    by (rule Cons.IH)
  finally show ?case by simp
qed

lemma decimal_pos:
  assumes "list_all is_digit s" "s \<noteq> []" "hd s \<noteq> CHR ''0''"
  shows "0 < decimal s"
proof -
  obtain c cs where s: "s = c # cs" using assms(2) by (cases s) auto
  have "0 < digit_val c" using assms s by (simp add: digit_val_pos)
  also have "digit_val c \<le> foldl (\<lambda>n c. 10 * n + digit_val c) (digit_val c) cs"
    by (rule foldl_decimal_ge)
  finally show ?thesis by (simp add: decimal_def s)
qed

lemma decimal_inj:
  "list_all is_digit s \<Longrightarrow> list_all is_digit t \<Longrightarrow> s = [] \<or> hd s \<noteq> CHR ''0'' \<Longrightarrow>
   t = [] \<or> hd t \<noteq> CHR ''0'' \<Longrightarrow> decimal s = decimal t \<Longrightarrow> s = t"
proof (induction s arbitrary: t rule: rev_induct)
  case Nil
  then show ?case using decimal_pos [of t] by (auto simp: decimal_def)
next
  case (snoc c s)
  have pos: "0 < decimal (s @ [c])"
    using snoc.prems(1,3) by (intro decimal_pos) auto
  show ?case
  proof (cases t rule: rev_cases)
    case Nil
    with pos snoc.prems(5) show ?thesis by (simp add: decimal_def)
  next
    case (snoc t' d)
    have dc: "digit_val c < 10" "digit_val d < 10"
      using snoc.prems(1,2) snoc by (auto simp: digit_val_less)
    have eq: "10 * decimal s + digit_val c = 10 * decimal t' + digit_val d"
      using snoc.prems(5) snoc by (simp add: decimal_snoc)
    have d1: "decimal s = decimal t'" and d2: "digit_val c = digit_val d"
      using eq dc by arith+
    have "s = t'"
    proof (rule snoc.IH)
      show "list_all is_digit s" using snoc.prems(1) by simp
      show "list_all is_digit t'" using snoc.prems(2) snoc by simp
      show "s = [] \<or> hd s \<noteq> CHR ''0''" using snoc.prems(3) by (cases s) auto
      show "t' = [] \<or> hd t' \<noteq> CHR ''0''" using snoc.prems(4) snoc by (cases t') auto
      show "decimal s = decimal t'" by (rule d1)
    qed
    moreover have "c = d"
      using d2 snoc.prems(1,2) snoc by (auto intro: digit_val_inj)
    ultimately show ?thesis using snoc by simp
  qed
qed

lemma array_index_inj:
  assumes "array_index a = Some i" "array_index b = Some i"
  shows "a = b"
proof -
  have a: "a \<noteq> []" "list_all is_digit a" "a = ''0'' \<or> hd a \<noteq> CHR ''0''" "decimal a = i"
    using assms(1) by (auto simp: array_index_def split: if_splits)
  have b: "b \<noteq> []" "list_all is_digit b" "b = ''0'' \<or> hd b \<noteq> CHR ''0''" "decimal b = i"
    using assms(2) by (auto simp: array_index_def split: if_splits)
  show ?thesis
  proof (cases "hd a = CHR ''0'' \<or> hd b = CHR ''0''")
    case True
    then have z: "a = ''0'' \<or> b = ''0''" using a(3) b(3) by auto
    then have "i = 0" using a(4) b(4) by (auto simp: decimal_def digit_val_def)
    then have "hd a = CHR ''0''" "hd b = CHR ''0''"
      using decimal_pos [OF a(2) a(1)] decimal_pos [OF b(2) b(1)] a(4) b(4) by auto
    then show ?thesis using a(3) b(3) by auto
  next
    case False
    then show ?thesis using decimal_inj [OF a(2) b(2)] a(4) b(4) by auto
  qed
qed

subsection \<open>Parsed values are objects in key order\<close>

lemma key_before_drop:
  assumes "sorted_wrt key_before (map fst kvs)" "k \<notin> fst ` set kvs" "array_index k = Some i"
  shows "\<forall>kv \<in> set (dropWhile (index_below i) kvs). key_before k (fst kv)"
  using assms(1,2)
proof (induction kvs)
  case Nil
  show ?case by simp
next
  case (Cons kv kvs)
  show ?case
  proof (cases "index_below i kv")
    case True
    with Cons show ?thesis by simp
  next
    case False
    have kv: "key_before k (fst kv)"
    proof (cases "array_index (fst kv)")
      case None
      with Cons.prems(2) show ?thesis by (auto simp: key_before_def)
    next
      case (Some j)
      have "j \<noteq> i" using array_index_inj [OF Some] assms(3) Cons.prems(2) by auto
      with False Some assms(3) show ?thesis
        by (auto simp: key_before_def index_below_def)
    qed
    have "key_before k b" if b: "b \<in> fst ` set kvs" for b
    proof -
      have after: "key_before (fst kv) b" using Cons.prems(1) b by auto
      have ne: "k \<noteq> b" using Cons.prems(2) b by auto
      show ?thesis using after kv ne assms(3)
        by (auto simp: key_before_def split: option.splits)
    qed
    with kv False show ?thesis by auto
  qed
qed

lemma set_prop_keys_sorted:
  assumes "sorted_wrt key_before (map fst kvs)"
  shows "sorted_wrt key_before (map fst (set_prop kvs k v))"
proof (cases "k \<in> fst ` set kvs")
  case True
  have "fst \<circ> (\<lambda>kv. if fst kv = k then (k, v) else kv) = fst"
    by (rule ext) simp
  with True assms show ?thesis by (simp add: set_prop_def)
next
  case False
  show ?thesis
  proof (cases "array_index k")
    case None
    with False assms show ?thesis
      by (auto simp: set_prop_def sorted_wrt_append key_before_def)
  next
    case (Some i)
    let ?l = "takeWhile (index_below i) kvs" and ?r = "dropWhile (index_below i) kvs"
    have split: "map fst kvs = map fst ?l @ map fst ?r"
      by (metis map_append takeWhile_dropWhile_id)
    have s: "sorted_wrt key_before (map fst ?l)" "sorted_wrt key_before (map fst ?r)"
      "\<forall>a \<in> set (map fst ?l). \<forall>b \<in> set (map fst ?r). key_before a b"
      using assms unfolding split by (auto simp: sorted_wrt_append)
    have l: "\<forall>a \<in> set (map fst ?l). key_before a k"
      using Some by (auto simp: key_before_def index_below_def dest!: set_takeWhileD split: option.splits)
    have r: "\<forall>b \<in> set (map fst ?r). key_before k b"
      using key_before_drop [OF assms False Some] by auto
    show ?thesis
      using False Some s l r by (simp add: set_prop_def sorted_wrt_append)
  qed
qed

lemma set_prop_values:
  "list_all P kvs \<Longrightarrow> P (k, v) \<Longrightarrow> list_all P (set_prop kvs k v)"
  by (auto simp: set_prop_def list_all_iff split: option.splits dest: set_takeWhileD set_dropWhileD)

lemma set_prop_wf:
  "json_wf (JObj kvs) \<Longrightarrow> json_wf v \<Longrightarrow> json_wf (JObj (set_prop kvs k v))"
  by (simp add: set_prop_keys_sorted set_prop_values)

lemma parse_value_Suc_Ok:
  assumes "parse_value (Suc n) t = Ok (v, r)"
  shows "(\<exists>cs. parse_elements n [] cs = Ok (v, r)) \<or> (\<exists>cs. parse_members n [] cs = Ok (v, r))
     \<or> v = JArr [] \<or> v = JObj [] \<or> (\<exists>s. v = JStr s) \<or> v = JNull \<or> (\<exists>b. v = JBool b)"
proof (cases "skip_ws t")
  case Nil
  with assms show ?thesis by simp
next
  case (Cons c cs)
  show ?thesis
  proof (cases "skip_ws cs")
    case Nil
    with assms Cons show ?thesis by (auto simp: bind_eq_Ok split: if_splits)
  next
    case (Cons d ds)
    with assms \<open>skip_ws t = c # cs\<close> show ?thesis
      by (simp add: bind_eq_Ok split: if_splits) blast+
  qed
qed

lemma parse_elements_Suc_Ok:
  assumes "parse_elements (Suc n) es t = Ok (v, r)"
  shows "\<exists>x t1. parse_value n t = Ok (x, t1) \<and>
     (v = JArr (es @ [x]) \<or> (\<exists>t2. parse_elements n (es @ [x]) t2 = Ok (v, r)))"
proof -
  from assms obtain p where p: "parse_value n t = Ok p" and
    rest: "(case skip_ws (snd p) of
              [] \<Rightarrow> Throws SyntaxError
            | d # ds \<Rightarrow>
                if d = CHR '','' then parse_elements n (es @ [fst p]) ds
                else if d = CHR '']'' then Ok (JArr (es @ [fst p]), ds)
                else Throws SyntaxError) = Ok (v, r)"
    by (auto simp: bind_eq_Ok)
  from rest have "v = JArr (es @ [fst p]) \<or> (\<exists>t2. parse_elements n (es @ [fst p]) t2 = Ok (v, r))"
    by (cases "skip_ws (snd p)") (auto split: if_splits)
  with p show ?thesis by (cases p) auto
qed

lemma parse_members_Suc_Ok:
  assumes "parse_members (Suc n) acc t = Ok (v, r)"
  shows "\<exists>key x t1 t2. parse_value n t1 = Ok (x, t2) \<and>
     (v = JObj (set_prop acc key x) \<or> (\<exists>t3. parse_members n (set_prop acc key x) t3 = Ok (v, r)))"
proof (cases "skip_ws t")
  case Nil
  with assms show ?thesis by simp
next
  case (Cons c cs)
  with assms obtain key where k: "parse_chars cs = Ok key" and
    rest: "(case skip_ws (snd key) of [] \<Rightarrow> Throws SyntaxError
            | d # ds \<Rightarrow>
                if d \<noteq> CHR '':'' then Throws SyntaxError
                else bind (parse_value n ds) (\<lambda>p.
                  case skip_ws (snd p) of
                    [] \<Rightarrow> Throws SyntaxError
                  | e # es \<Rightarrow>
                      if e = CHR '','' then parse_members n (set_prop acc (fst key) (fst p)) es
                      else if e = CHR ''}'' then Ok (JObj (set_prop acc (fst key) (fst p)), es)
                      else Throws SyntaxError)) = Ok (v, r)"
    by (auto simp: bind_eq_Ok split: if_splits)
  from rest obtain ds p where p: "parse_value n ds = Ok p" and
    fin: "(case skip_ws (snd p) of
             [] \<Rightarrow> Throws SyntaxError
           | e # es \<Rightarrow>
               if e = CHR '','' then parse_members n (set_prop acc (fst key) (fst p)) es
               else if e = CHR ''}'' then Ok (JObj (set_prop acc (fst key) (fst p)), es)
               else Throws SyntaxError) = Ok (v, r)"
    by (cases "skip_ws (snd key)") (auto simp: bind_eq_Ok split: if_splits)
  from fin have "v = JObj (set_prop acc (fst key) (fst p))
      \<or> (\<exists>t3. parse_members n (set_prop acc (fst key) (fst p)) t3 = Ok (v, r))"
    by (cases "skip_ws (snd p)") (auto split: if_splits)
  with p show ?thesis by (cases p) auto
qed

lemma parse_wf_aux:
  "(parse_value n t = Ok (v, r) \<longrightarrow> json_wf v) \<and>
   (parse_elements n es t = Ok (v, r) \<longrightarrow> list_all json_wf es \<longrightarrow> json_wf v) \<and>
   (parse_members n acc t = Ok (v, r) \<longrightarrow> json_wf (JObj acc) \<longrightarrow> json_wf v)"
proof (induction n arbitrary: t v r es acc)
  case 0
  show ?case by simp
next
  case (Suc n)
  have 1: "json_wf v" if "parse_value (Suc n) t = Ok (v, r)"
    using parse_value_Suc_Ok [OF that] Suc [of _ v r "[]" "[]"] by auto
  have 2: "json_wf v" if a: "parse_elements (Suc n) es t = Ok (v, r)" and w: "list_all json_wf es"
  proof -
    from parse_elements_Suc_Ok [OF a] obtain x t1 where
      x: "parse_value n t = Ok (x, t1)" and
      fin: "v = JArr (es @ [x]) \<or> (\<exists>t2. parse_elements n (es @ [x]) t2 = Ok (v, r))"
      by blast
    have "json_wf x" using Suc x by blast
    then have "list_all json_wf (es @ [x])" using w by simp
    with fin Suc show ?thesis by auto
  qed
  have 3: "json_wf v" if a: "parse_members (Suc n) acc t = Ok (v, r)" and w: "json_wf (JObj acc)"
  proof -
    from parse_members_Suc_Ok [OF a] obtain key x t1 t2 where
      x: "parse_value n t1 = Ok (x, t2)" and
      fin: "v = JObj (set_prop acc key x) \<or> (\<exists>t3. parse_members n (set_prop acc key x) t3 = Ok (v, r))"
      by blast
    have "json_wf x" using Suc x by blast
    then have "json_wf (JObj (set_prop acc key x))" using w by (rule set_prop_wf [rotated])
    with fin Suc show ?thesis by blast
  qed
  from 1 2 3 show ?case by blast
qed

lemma parse_wf: "JSON_parse t = Ok v \<Longrightarrow> json_wf v"
  using parse_wf_aux [of "Suc (length t + length t)" t v]
  by (auto simp: JSON_parse_def bind_eq_Ok split: if_splits)

lemma readVideos_wf: "readVideos s = Ok v \<Longrightarrow> json_wf v"
  by (auto simp: readVideos_def readFile_def split: res.splits if_splits option.splits dest: parse_wf)

lemma read_after_write:
  "json_wf v \<Longrightarrow> writable s \<Longrightarrow> readable s \<Longrightarrow> readVideos (writeVideos s v) = Ok v"
  by (simp add: readVideos_def writeVideos_def readFile_def writeFile_def roundtrip)

section \<open>The parser's fuel\<close>

text \<open>
  The parser counts its nested calls down from twice the length of the text. That is
  enough: a call of \<open>parse_value\<close> that returns has read at least one character, each
  level of nesting costs two calls, and the result is the same with any larger count.
\<close>

lemma skip_ws_length: "length (skip_ws t) \<le> length t"
  by (simp add: skip_ws_def length_dropWhile_le)

lemma skip_ws_Cons_length: "skip_ws t = c # cs \<Longrightarrow> length cs < length t"
  using skip_ws_length [of t] by simp

lemma cons_char_Ok: "(cons_char c m = Ok p) = (\<exists>s r. m = Ok (s, r) \<and> p = (c # s, r))"
  by (cases m) (auto simp: cons_char_def)

lemma parse_chars_shorter: "parse_chars t = Ok (s, r) \<Longrightarrow> length r < length t"
proof (induction t arbitrary: s rule: length_induct)
  case (1 t)
  show ?case
  proof (cases t)
    case Nil
    with 1(2) show ?thesis by simp
  next
    case (Cons c cs)
    from 1(2) have "r = cs \<or> (\<exists>u s'. length u < length t \<and> parse_chars u = Ok (s', r))"
      unfolding Cons
      by (auto simp: cons_char_Ok split: if_splits list.splits option.splits)
    then show ?thesis
    proof
      assume "r = cs"
      with Cons show ?thesis by simp
    next
      assume "\<exists>u s'. length u < length t \<and> parse_chars u = Ok (s', r)"
      then obtain u s' where u: "length u < length t" and p: "parse_chars u = Ok (s', r)"
        by blast
      from 1(1) u p have "length r < length u" by blast
      with u show ?thesis by simp
    qed
  qed
qed

lemma parse_shorter:
  "(parse_value n t = Ok (v, r) \<longrightarrow> length r < length t) \<and>
   (parse_elements n es t = Ok (v, r) \<longrightarrow> length r < length t) \<and>
   (parse_members n acc t = Ok (v, r) \<longrightarrow> length r < length t)"
proof (induction n arbitrary: t v r es acc)
  case 0
  show ?case by simp
next
  case (Suc n)
  have 1: "length r < length t" if a: "parse_value (Suc n) t = Ok (v, r)"
  proof (cases "skip_ws t")
    case Nil
    with a show ?thesis by simp
  next
    case (Cons c cs)
    note len = skip_ws_Cons_length [OF Cons]
    from a Cons have "length r \<le> length cs \<or> parse_elements n [] cs = Ok (v, r)
        \<or> parse_members n [] cs = Ok (v, r)"
      by (cases "skip_ws cs")
        (auto simp: bind_eq_Ok split: if_splits
          dest!: parse_chars_shorter skip_ws_Cons_length)
    with Suc [of cs v r "[]" "[]"] len show ?thesis by auto
  qed
  have 2: "length r < length t" if a: "parse_elements (Suc n) es t = Ok (v, r)"
  proof -
    from a obtain p where p: "parse_value n t = Ok p" and
      rest: "(case skip_ws (snd p) of
                [] \<Rightarrow> Throws SyntaxError
              | d # ds \<Rightarrow>
                  if d = CHR '','' then parse_elements n (es @ [fst p]) ds
                  else if d = CHR '']'' then Ok (JArr (es @ [fst p]), ds)
                  else Throws SyntaxError) = Ok (v, r)"
      by (auto simp: bind_eq_Ok)
    from p Suc [of t "fst p" "snd p" "[]" "[]"] have lp: "length (snd p) < length t" by simp
    show ?thesis
    proof (cases "skip_ws (snd p)")
      case Nil
      with rest show ?thesis by simp
    next
      case (Cons d ds)
      note len = skip_ws_Cons_length [OF Cons]
      from rest Cons have "r = ds \<or> parse_elements n (es @ [fst p]) ds = Ok (v, r)"
        by (auto split: if_splits)
      with Suc [of ds v r "es @ [fst p]" "[]"] len lp show ?thesis by auto
    qed
  qed
  have 3: "length r < length t" if a: "parse_members (Suc n) acc t = Ok (v, r)"
  proof (cases "skip_ws t")
    case Nil
    with a show ?thesis by simp
  next
    case (Cons c cs)
    note len = skip_ws_Cons_length [OF Cons]
    from a Cons obtain key where k: "parse_chars cs = Ok key" and
      rest: "(case skip_ws (snd key) of [] \<Rightarrow> Throws SyntaxError
              | d # ds \<Rightarrow>
                  if d \<noteq> CHR '':'' then Throws SyntaxError
                  else bind (parse_value n ds) (\<lambda>p.
                    case skip_ws (snd p) of
                      [] \<Rightarrow> Throws SyntaxError
                    | e # es \<Rightarrow>
                        if e = CHR '','' then parse_members n (set_prop acc (fst key) (fst p)) es
                        else if e = CHR ''}'' then Ok (JObj (set_prop acc (fst key) (fst p)), es)
                        else Throws SyntaxError)) = Ok (v, r)"
      by (auto simp: bind_eq_Ok split: if_splits)
    from k have lk: "length (snd key) < length cs"
      using parse_chars_shorter [of cs "fst key" "snd key"] by simp
    show ?thesis
    proof (cases "skip_ws (snd key)")
      case Nil
      with rest show ?thesis by simp
    next
      case kc: (Cons d ds)
      note lend = skip_ws_Cons_length [OF kc]
      from rest kc obtain p where p: "parse_value n ds = Ok p" and
        fin: "(case skip_ws (snd p) of
                 [] \<Rightarrow> Throws SyntaxError
               | e # es \<Rightarrow>
                   if e = CHR '','' then parse_members n (set_prop acc (fst key) (fst p)) es
                   else if e = CHR ''}'' then Ok (JObj (set_prop acc (fst key) (fst p)), es)
                   else Throws SyntaxError) = Ok (v, r)"
        by (auto simp: bind_eq_Ok split: if_splits)
      from p Suc [of ds "fst p" "snd p" "[]" "[]"] have lp: "length (snd p) < length ds" by simp
      show ?thesis
      proof (cases "skip_ws (snd p)")
        case Nil
        with fin show ?thesis by simp
      next
        case pc: (Cons e es)
        note lene = skip_ws_Cons_length [OF pc]
        from fin pc have "r = es \<or> parse_members n (set_prop acc (fst key) (fst p)) es = Ok (v, r)"
          by (auto split: if_splits)
        with Suc [of es v r "[]" "set_prop acc (fst key) (fst p)"] len lk lend lp lene
        show ?thesis by auto
      qed
    qed
  qed
  from 1 2 3 show ?case by blast
qed

lemma parse_value_shorter: "parse_value n t = Ok p \<Longrightarrow> length (snd p) < length t"
  using parse_shorter [of n t "fst p" "snd p" "[]" "[]"] by simp

lemma parse_fuel_step:
  "(length t + length t < n \<longrightarrow> parse_value (Suc n) t = parse_value n t) \<and>
   (Suc (length t + length t) < n \<longrightarrow> parse_elements (Suc n) es t = parse_elements n es t) \<and>
   (Suc (length t + length t) < n \<longrightarrow> parse_members (Suc n) acc t = parse_members n acc t)"
proof (induction n arbitrary: t es acc)
  case 0
  show ?case by simp
next
  case (Suc n)
  have 1: "parse_value (Suc (Suc n)) t = parse_value (Suc n) t" if a: "length t + length t < Suc n"
  proof (cases "skip_ws t")
    case Nil
    then show ?thesis by simp
  next
    case (Cons c cs)
    from skip_ws_Cons_length [OF Cons] a have "Suc (length cs + length cs) < n" by simp
    with Suc [of cs "[]" "[]"] have
      e: "parse_elements (Suc n) [] cs = parse_elements n [] cs" and
      m: "parse_members (Suc n) [] cs = parse_members n [] cs"
      by simp_all
    show ?thesis unfolding parse_value.simps Cons list.case e m ..
  qed
  have 2: "parse_elements (Suc (Suc n)) es t = parse_elements (Suc n) es t"
    if a: "Suc (length t + length t) < Suc n"
  proof -
    from a Suc [of t es acc] have v: "parse_value (Suc n) t = parse_value n t" by simp
    show ?thesis
    proof (cases "parse_value n t")
      case (Ok p)
      note lp = parse_value_shorter [OF Ok]
      show ?thesis
      proof (cases "skip_ws (snd p)")
        case Nil
        show ?thesis unfolding parse_elements.simps v Ok bind.simps Nil list.case ..
      next
        case (Cons d ds)
        from skip_ws_Cons_length [OF Cons] lp a have "Suc (length ds + length ds) < n" by simp
        with Suc [of ds "es @ [fst p]" "[]"] have
          e: "parse_elements (Suc n) (es @ [fst p]) ds = parse_elements n (es @ [fst p]) ds"
          by simp
        show ?thesis unfolding parse_elements.simps(2) [of "Suc n"] parse_elements.simps(2) [of n es]
            v Ok bind.simps Cons list.case e ..
      qed
    next
      case (Throws x)
      show ?thesis unfolding parse_elements.simps(2) [of "Suc n"] parse_elements.simps(2) [of n es]
          v Throws bind.simps ..
    next
      case Beyond
      show ?thesis unfolding parse_elements.simps(2) [of "Suc n"] parse_elements.simps(2) [of n es]
          v Beyond bind.simps ..
    qed
  qed
  have 3: "parse_members (Suc (Suc n)) acc t = parse_members (Suc n) acc t"
    if a: "Suc (length t + length t) < Suc n"
  proof (cases "skip_ws t")
    case Nil
    then show ?thesis by simp
  next
    case (Cons c cs)
    note len = skip_ws_Cons_length [OF Cons]
    note unf = parse_members.simps(2) [of "Suc n"] parse_members.simps(2) [of n acc]
    show ?thesis
    proof (cases "parse_chars cs")
      case (Ok key)
      from Ok have lk: "length (snd key) < length cs"
        using parse_chars_shorter [of cs "fst key" "snd key"] by simp
      show ?thesis
      proof (cases "skip_ws (snd key)")
        case Nil
        show ?thesis unfolding unf Cons list.case Ok bind.simps Nil ..
      next
        case kc: (Cons d ds)
        note lend = skip_ws_Cons_length [OF kc]
        from len lk lend a have "length ds + length ds < n" by simp
        with Suc [of ds "[]" "[]"] have v: "parse_value (Suc n) ds = parse_value n ds" by simp
        show ?thesis
        proof (cases "parse_value n ds")
          case p: (Ok p)
          note lp = parse_value_shorter [OF p]
          show ?thesis
          proof (cases "skip_ws (snd p)")
            case Nil
            show ?thesis unfolding unf Cons list.case Ok bind.simps kc v p Nil ..
          next
            case pc: (Cons e es')
            from skip_ws_Cons_length [OF pc] lp len lk lend a
            have "Suc (length es' + length es') < n" by simp
            with Suc [of es' "[]" "set_prop acc (fst key) (fst p)"] have
              m: "parse_members (Suc n) (set_prop acc (fst key) (fst p)) es'
               = parse_members n (set_prop acc (fst key) (fst p)) es'"
              by simp
            show ?thesis unfolding unf Cons list.case Ok bind.simps kc v p pc m ..
          qed
        next
          case (Throws x)
          show ?thesis unfolding unf Cons list.case Ok bind.simps kc v Throws ..
        next
          case Beyond
          show ?thesis unfolding unf Cons list.case Ok bind.simps kc v Beyond ..
        qed
      qed
    next
      case (Throws x)
      show ?thesis unfolding unf Cons list.case Throws bind.simps ..
    next
      case Beyond
      show ?thesis unfolding unf Cons list.case Beyond bind.simps ..
    qed
  qed
  from 1 2 3 show ?case by blast
qed

lemma parse_fuel_enough:
  "length t + length t < n \<Longrightarrow> parse_value n t = parse_value (Suc (length t + length t)) t"
proof (induction n)
  case 0
  then show ?case by simp
next
  case (Suc n)
  show ?case
  proof (cases "length t + length t < n")
    case True
    with parse_fuel_step [of t n "[]" "[]"] Suc show ?thesis by simp
  next
    case False
    with Suc.prems have "n = length t + length t" by simp
    then show ?thesis by simp
  qed
qed

lemma JSON_parse_fuel:
  "length t + length t < n \<Longrightarrow>
   bind (parse_value n t)
     (\<lambda>p. if skip_ws (snd p) = [] then Ok (fst p) else Throws SyntaxError) = JSON_parse t"
  by (simp add: JSON_parse_def parse_fuel_enough)

section \<open>Rejected requests leave the store alone\<close>

text \<open>
  Every handler answers with a status other than 200 only on a path that returns before
  \<^verbatim>\<open>writeVideos\<close>.
\<close>

lemma res_json_state: "res_json x s = Ok (r, s') \<Longrightarrow> s' = s \<and> status r = 200"
  by (cases x) auto

lemma respond_eq: "(respond n b s = Ok (r, s')) = (r = Response n (Some b) \<and> s' = s)"
  by (auto simp: respond_def)

lemma push_video_status: "push_video videos c v s = Ok (r, s') \<Longrightarrow> status r = 200"
  by (auto simp: push_video_def bind_eq_Ok respond_eq)

lemma get_videos_rejects: "get_videos s = Ok (r, s') \<Longrightarrow> status r \<noteq> 200 \<Longrightarrow> s' = s"
  by (auto simp: get_videos_def bind_eq_Ok dest: res_json_state)

lemma get_category_flat_rejects: "get_category_flat c s = Ok (r, s') \<Longrightarrow> s' = s"
  by (auto simp: get_category_flat_def bind_eq_Ok respond_eq split: if_splits dest: res_json_state)

lemma get_category_thumb_rejects: "get_category_thumb c s = Ok (r, s') \<Longrightarrow> s' = s"
  by (auto simp: get_category_thumb_def bind_eq_Ok respond_eq split: if_splits dest: res_json_state)

lemma get_category_default_rejects: "get_category_default c s = Ok (r, s') \<Longrightarrow> s' = s"
  by (auto simp: get_category_default_def bind_eq_Ok respond_eq split: if_splits dest: res_json_state)

lemma post_video_flat_rejects:
  "post_video_flat c b s = Ok (r, s') \<Longrightarrow> status r \<noteq> 200 \<Longrightarrow> s' = s"
  by (auto simp: post_video_flat_def bind_eq_Ok respond_eq split: if_splits)

lemma post_video_create_rejects:
  "post_video_create c b s = Ok (r, s') \<Longrightarrow> status r \<noteq> 200 \<Longrightarrow> s' = s"
  by (auto simp: post_video_create_def bind_eq_Ok respond_eq split: if_splits dest: push_video_status)

lemma post_video_strict_rejects:
  "post_video_strict c b s = Ok (r, s') \<Longrightarrow> status r \<noteq> 200 \<Longrightarrow> s' = s"
  by (auto simp: post_video_strict_def bind_eq_Ok respond_eq split: if_splits dest: push_video_status)

lemma post_video_unchecked_rejects:
  "post_video_unchecked c b s = Ok (r, s') \<Longrightarrow> status r \<noteq> 200 \<Longrightarrow> s' = s"
  by (auto simp: post_video_unchecked_def bind_eq_Ok respond_eq split: if_splits dest: push_video_status)

lemma patch_video_thumbnail_rejects:
  "patch_video_thumbnail c i b s = Ok (r, s') \<Longrightarrow> status r \<noteq> 200 \<Longrightarrow> s' = s"
  by (auto simp: patch_video_thumbnail_def bind_eq_Ok respond_eq split: if_splits option.splits)

lemma delete_video_flat_rejects:
  "delete_video_flat c i s = Ok (r, s') \<Longrightarrow> status r \<noteq> 200 \<Longrightarrow> s' = s"
  by (auto simp: delete_video_flat_def bind_eq_Ok respond_eq split: if_splits)

lemma delete_video_thumb_rejects:
  "delete_video_thumb c i s = Ok (r, s') \<Longrightarrow> status r \<noteq> 200 \<Longrightarrow> s' = s"
  by (auto simp: delete_video_thumb_def bind_eq_Ok respond_eq split: if_splits)

lemma get_categories_flat_rejects: "get_categories_flat s = Ok (r, s') \<Longrightarrow> s' = s"
  by (auto simp: get_categories_flat_def bind_eq_Ok respond_eq)

lemma get_categories_thumb_rejects: "get_categories_thumb s = Ok (r, s') \<Longrightarrow> s' = s"
  by (auto simp: get_categories_thumb_def bind_eq_Ok respond_eq)

lemma post_category_rejects:
  "post_category e b s = Ok (r, s') \<Longrightarrow> status r \<noteq> 200 \<Longrightarrow> s' = s"
  by (auto simp: post_category_def bind_eq_Ok respond_eq split: if_splits option.splits)

lemma patch_category_thumbnail_rejects:
  "patch_category_thumbnail n b s = Ok (r, s') \<Longrightarrow> status r \<noteq> 200 \<Longrightarrow> s' = s"
  by (auto simp: patch_category_thumbnail_def bind_eq_Ok respond_eq split: if_splits option.splits)

lemma delete_category_rejects:
  "delete_category n s = Ok (r, s') \<Longrightarrow> status r \<noteq> 200 \<Longrightarrow> s' = s"
  by (auto simp: delete_category_def bind_eq_Ok respond_eq split: if_splits)

lemma not_routed_rejects: "not_routed s = Ok (r, s') \<Longrightarrow> s' = s"
  by (auto simp: not_routed_def)

lemmas rejects =
  get_videos_rejects get_category_flat_rejects get_category_thumb_rejects
  get_category_default_rejects post_video_flat_rejects post_video_create_rejects
  post_video_strict_rejects post_video_unchecked_rejects patch_video_thumbnail_rejects
  delete_video_flat_rejects delete_video_thumb_rejects get_categories_flat_rejects
  get_categories_thumb_rejects post_category_rejects patch_category_thumbnail_rejects
  delete_category_rejects not_routed_rejects

lemma handle_rejects:
  "handle v req s = Ok (r, s') \<Longrightarrow> status r \<noteq> 200 \<Longrightarrow> s' = s"
  by (cases v; cases req)
     (auto simp: post_category_flat_def post_category_thumb_def dest: rejects)

lemmas eval_defs =
  readVideos_def readFile_def writeVideos_def writeFile_def JSON_parse_def JSON_stringify_def
  skip_ws_def is_ws_def cons_char_def unescape_def is_hex_def hex_val_def is_digit_def
  quote_def escape_def newline_def hex_digit_def
  set_prop_def delete_prop_def index_below_def array_index_def decimal_def digit_val_def
  inherited_def Object_prototype_def Array_prototype_def splice_start_def
  respond_def error_def ok_with_def field_def names_def not_routed_def

text \<open>
  Claim C10. In every revision, a request that is answered with a client error (status
  400 or 404) leaves the file system exactly as it was: the handler has returned before
  \<^verbatim>\<open>writeVideos\<close>, so not even the text of the document is rewritten.
\<close>

theorem client_error_leaves_store:
  assumes "handle v req s = Ok (r, s')"
    and "status r = 400 \<or> status r = 404"
  shows "s' = s"
  using assms by (auto dest: handle_rejects)

theorem client_error_leaves_store_witness:
  "handle Part_000 (POST_category (JObj [(''name'', JStr ''music'')]))
      \<lparr>content = Some (''{'' @ [dq] @ ''music'' @ [dq] @ '' :[ ]}''), readable = True, writable = True\<rparr>
     = Ok (Response 400 (Some (error ''Category already exists'')),
           \<lparr>content = Some (''{'' @ [dq] @ ''music'' @ [dq] @ '' :[ ]}''), readable = True, writable = True\<rparr>)
   \<and> status (Response 400 (Some (error ''Category already exists''))) = 400"
proof -
  let ?s = "\<lparr>content = Some (''{'' @ [dq] @ ''music'' @ [dq] @ '' :[ ]}''), readable = True, writable = True\<rparr>"
  obtain r s' where h: "handle Part_000 (POST_category (JObj [(''name'', JStr ''music'')])) ?s = Ok (r, s')"
    and r: "r = Response 400 (Some (error ''Category already exists''))"
    by (simp add: post_category_flat_def post_category_def eval_defs)
  have "s' = ?s"
    using client_error_leaves_store [OF h] r by simp
  with h r show ?thesis by simp
qed

section \<open>The Store's guarantees\<close>

text \<open>
  Claim C6. \<^verbatim>\<open>readVideos\<close> never throws, and on each failure of the read (the
  file cannot be read, the file does not exist, its text is not JSON) it returns the empty
  object.
\<close>

theorem load_never_fails:
  "readVideos s \<noteq> Throws e \<and>
   (\<not> readable s \<or> content s = None \<or> (\<exists>t err. content s = Some t \<and> JSON_parse t = Throws err)
      \<longrightarrow> readVideos s = Ok (JObj []))"
  by (auto simp: readVideos_def readFile_def split: res.splits option.splits)

theorem load_never_fails_witness:
  \<open>readVideos \<lparr>content = Some ''{"music": []}'', readable = False, writable = True\<rparr> = Ok (JObj [])
   \<and> readVideos \<lparr>content = None, readable = True, writable = True\<rparr> = Ok (JObj [])
   \<and> JSON_parse ''{"music": [}'' = Throws SyntaxError
   \<and> readVideos \<lparr>content = Some ''{"music": [}'', readable = True, writable = True\<rparr> = Ok (JObj [])\<close>
proof -
  have bad: \<open>JSON_parse ''{"music": [}'' = Throws SyntaxError\<close>
    by (simp add: eval_defs)
  let ?a = \<open>\<lparr>content = Some ''{"music": []}'', readable = False, writable = True\<rparr>\<close>
  let ?b = \<open>\<lparr>content = None, readable = True, writable = True\<rparr>\<close>
  let ?c = \<open>\<lparr>content = Some ''{"music": [}'', readable = True, writable = True\<rparr>\<close>
  have "readVideos ?a = Ok (JObj [])"
    using load_never_fails [of ?a] by simp
  moreover have "readVideos ?b = Ok (JObj [])"
    using load_never_fails [of ?b] by simp
  moreover have "readVideos ?c = Ok (JObj [])"
    using load_never_fails [of ?c] bad by simp
  ultimately show ?thesis using bad by simp
qed

text \<open>
  Claim C7 says that saving a catalog and loading it again gives the catalog back. As
  stated it fails when the file cannot be written: \<^verbatim>\<open>writeVideos\<close> catches the
  error and the old document stays.
\<close>

theorem save_then_load_counterexample:
  \<open>is_catalog Flat (JObj [(''music'', JArr [])])
   \<and> readVideos (writeVideos \<lparr>content = Some ''{}'', readable = True, writable = False\<rparr>
         (JObj [(''music'', JArr [])])) = Ok (JObj [])\<close>
  by (simp add: eval_defs is_category_def key_before_def)

text \<open>
  Claim C7, amended: when the file can be written and read, loading after saving a
  catalog returns that catalog; the text \<^verbatim>\<open>JSON.stringify\<close> prints for a catalog
  parses back to it.
\<close>

theorem save_then_load:
  assumes "is_catalog sch c" and "writable s" and "readable s"
  shows "readVideos (writeVideos s c) = Ok c \<and> JSON_parse (JSON_stringify c) = Ok c"
proof -
  have "json_wf c" using assms(1) by (cases c) simp_all
  then show ?thesis using assms(2,3) by (simp add: read_after_write roundtrip)
qed

theorem save_then_load_witness:
  \<open>readVideos (writeVideos \<lparr>content = None, readable = True, writable = True\<rparr>
      (JObj [(''7'', JObj [(''categoryThumbnail'', JStr ''t.png''), (''videos'', JArr [])]),
             (''music'', JObj [(''categoryThumbnail'', JStr []),
                (''videos'', JArr [JObj [(''title'', JStr ''T''), (''description'', JStr []), (''url'', JStr ''U'')]])])]))
    = Ok (JObj [(''7'', JObj [(''categoryThumbnail'', JStr ''t.png''), (''videos'', JArr [])]),
             (''music'', JObj [(''categoryThumbnail'', JStr []),
                (''videos'', JArr [JObj [(''title'', JStr ''T''), (''description'', JStr []), (''url'', JStr ''U'')]])])])\<close>
proof -
  let ?c = "JObj [(''7'', JObj [(''categoryThumbnail'', JStr ''t.png''), (''videos'', JArr [])]),
             (''music'', JObj [(''categoryThumbnail'', JStr []),
                (''videos'', JArr [JObj [(''title'', JStr ''T''), (''description'', JStr []), (''url'', JStr ''U'')]])])]"
  have "is_catalog Thumbnailed ?c"
    by (simp add: is_category_def key_before_def array_index_def is_digit_def decimal_def digit_val_def)
  from save_then_load [OF this, of "\<lparr>content = None, readable = True, writable = True\<rparr>"]
  show ?thesis by simp
qed

section \<open>Deleting a video\<close>

lemma own_entry:
  assumes "map_of kvs k = Some e"
  shows "get_json (JObj kvs) k = Ok (Val e)" and "k \<in> fst ` set kvs"
    and "put_back_json (JObj kvs) k e' = Ok (JObj (set_prop kvs k e'))"
proof -
  show "get_json (JObj kvs) k = Ok (Val e)" using assms by simp
  show k: "k \<in> fst ` set kvs" using assms by (metis domI dom_map_of_conv_image_fst)
  show "put_back_json (JObj kvs) k e' = Ok (JObj (set_prop kvs k e'))" using k by simp
qed

lemma entry_wf: "json_wf (JObj kvs) \<Longrightarrow> map_of kvs k = Some e \<Longrightarrow> json_wf e"
  by (fastforce simp: list_all_iff dest!: map_of_SomeD)

lemma is_video_truthy: "is_video x \<Longrightarrow> truthy_json x"
  by (cases x) simp_all

lemma nth_is_video: "list_all is_video vs \<Longrightarrow> i < length vs \<Longrightarrow> truthy_json (vs ! i)"
  by (simp add: list_all_length is_video_truthy)

lemma delete_video_flat_ok:
  assumes "readVideos s = Ok (JObj kvs)" and "map_of kvs c = Some (JArr vs)"
    and "array_index index = Some i" and "i < length vs" and "truthy_json (vs ! i)"
  shows "delete_video_flat c index s =
     Ok (Response 200 (Some (ok_with ''videos'' (JArr (take i vs @ drop (Suc i) vs)))),
         writeVideos s (JObj (set_prop kvs c (JArr (take i vs @ drop (Suc i) vs)))))"
  using assms own_entry [OF assms(2)]
  by (simp add: delete_video_flat_def respond_def splice_start_def)

lemma delete_video_thumb_ok:
  assumes "readVideos s = Ok (JObj kvs)" and "map_of kvs c = Some (JObj ps)"
    and "map_of ps ''videos'' = Some (JArr vs)"
    and "array_index index = Some i" and "i < length vs" and "truthy_json (vs ! i)"
  shows "delete_video_thumb c index s =
     Ok (Response 200 (Some (ok_with ''videos'' (JArr (take i vs @ drop (Suc i) vs)))),
         writeVideos s (JObj (set_prop kvs c
           (JObj (set_prop ps ''videos'' (JArr (take i vs @ drop (Suc i) vs)))))))"
  using assms own_entry [OF assms(2)] own_entry [OF assms(3)]
  by (simp add: delete_video_thumb_def respond_def splice_start_def)

lemma category_videos_cases:
  assumes "category_videos sch e = Some vs"
  obtains "sch = Flat" "e = JArr vs"
  | ps where "sch = Thumbnailed" "e = JObj ps" "map_of ps ''videos'' = Some (JArr vs)"
  using assms
  by (cases sch; cases e) (auto split: option.splits json.splits)

lemma with_videos_wf:
  assumes "category_videos sch e = Some vs" "json_wf e" "list_all json_wf vs'"
  shows "json_wf (with_videos sch e vs')"
  using assms(1)
proof (cases rule: category_videos_cases)
  case 1
  then show ?thesis using assms(3) by simp
next
  case (2 ps)
  then show ?thesis using assms(2,3) set_prop_wf [of ps "JArr vs'" "''videos''"] by simp
qed

lemma category_videos_wf:
  assumes "category_videos sch e = Some vs" "json_wf e"
  shows "list_all json_wf vs"
  using assms(1)
proof (cases rule: category_videos_cases)
  case 1
  then show ?thesis using assms(2) by simp
next
  case (2 ps)
  then show ?thesis using assms(2) entry_wf [of ps "''videos''" "JArr vs"] by simp
qed

lemma list_all_remove: "list_all P vs \<Longrightarrow> list_all P (take i vs @ drop (Suc i) vs)"
  by (auto simp: list_all_iff dest: in_set_takeD in_set_dropD)

text \<open>
  Claim C4 says that the sequence without the deleted video is both saved and returned.
  As stated it fails when the file cannot be written: the handler answers with the
  shorter sequence, \<^verbatim>\<open>writeVideos\<close> drops the error, and the document keeps the
  old sequence, which the next request returns.
\<close>

theorem delete_video_counterexample:
  \<open>handle Part_000 (DELETE_video ''music'' ''0'')
      \<lparr>content = Some ''{"music": [{"title": "a"}, {"title": "b"}]}'', readable = True, writable = False\<rparr>
     = Ok (Response 200 (Some (ok_with ''videos'' (JArr [JObj [(''title'', JStr ''b'')]]))),
           \<lparr>content = Some ''{"music": [{"title": "a"}, {"title": "b"}]}'', readable = True, writable = False\<rparr>)
   \<and> handle Part_000 (GET_category ''music'')
      \<lparr>content = Some ''{"music": [{"title": "a"}, {"title": "b"}]}'', readable = True, writable = False\<rparr>
     = Ok (Response 200 (Some (JArr [JObj [(''title'', JStr ''a'')], JObj [(''title'', JStr ''b'')]])),
           \<lparr>content = Some ''{"music": [{"title": "a"}, {"title": "b"}]}'', readable = True, writable = False\<rparr>)\<close>
  by (simp add: eval_defs delete_video_flat_def get_category_flat_def array_index_def
      is_digit_def decimal_def digit_val_def)

text \<open>
  Claim C4, amended. In every revision, deleting the video at a valid index \<open>i\<close> of a
  category answers with the sequence without its element \<open>i\<close>: the elements before
  \<open>i\<close> stay, those after it move down by one, the length drops by one. The catalog
  with that sequence in the category is handed to \<^verbatim>\<open>writeVideos\<close>, and when the
  file can be written and read it is the catalog the next request loads.
\<close>

theorem delete_video_shifts:
  assumes "readVideos s = Ok (JObj kvs)"
    and "map_of kvs category = Some e"
    and "category_videos (schema_of v) e = Some vs"
    and "list_all is_video vs"
    and "array_index index = Some i"
    and "i < length vs"
  shows "let vs' = take i vs @ drop (Suc i) vs;
             videos' = JObj (set_prop kvs category (with_videos (schema_of v) e vs'))
         in handle v (DELETE_video category index) s
              = Ok (Response 200 (Some (ok_with ''videos'' (JArr vs'))), writeVideos s videos')
          \<and> length vs' = length vs - 1
          \<and> (\<forall>j < i. vs' ! j = vs ! j)
          \<and> (\<forall>j. i < j \<and> j < length vs \<longrightarrow> vs' ! (j - 1) = vs ! j)
          \<and> (writable s \<and> readable s \<longrightarrow> readVideos (writeVideos s videos') = Ok videos')"
proof -
  let ?vs = "take i vs @ drop (Suc i) vs"
  let ?videos = "JObj (set_prop kvs category (with_videos (schema_of v) e ?vs))"
  have t: "truthy_json (vs ! i)" using assms(4,6) by (rule nth_is_video)
  have h: "handle v (DELETE_video category index) s
      = Ok (Response 200 (Some (ok_with ''videos'' (JArr ?vs))), writeVideos s ?videos)"
    using assms(3)
  proof (cases rule: category_videos_cases)
    case 1
    then show ?thesis
      using delete_video_flat_ok [OF assms(1) _ assms(5,6) t, of category] assms(2)
      by (cases v) simp_all
  next
    case (2 ps)
    then show ?thesis
      using delete_video_thumb_ok [OF assms(1) _ _ assms(5,6) t, of category ps] assms(2)
      by (cases v) simp_all
  qed
  have len: "length ?vs = length vs - 1" using assms(6) by simp
  have before: "\<forall>j < i. ?vs ! j = vs ! j" using assms(6) by (simp add: nth_append)
  have after: "\<forall>j. i < j \<and> j < length vs \<longrightarrow> ?vs ! (j - 1) = vs ! j"
  proof (intro allI impI)
    fix j assume j: "i < j \<and> j < length vs"
    then have "\<not> j - 1 < i" by arith
    then have "?vs ! (j - 1) = drop (Suc i) vs ! (j - 1 - i)"
      using assms(6) by (simp add: nth_append min_def)
    also have "\<dots> = vs ! j" using j by simp
    finally show "?vs ! (j - 1) = vs ! j" .
  qed
  have wf: "json_wf (JObj kvs)" using assms(1) by (rule readVideos_wf)
  have "json_wf e" using wf assms(2) by (rule entry_wf)
  then have "json_wf (with_videos (schema_of v) e ?vs)"
    using with_videos_wf [OF assms(3)] category_videos_wf [OF assms(3)] list_all_remove by blast
  then have "json_wf ?videos" using wf set_prop_wf by blast
  then have saved: "writable s \<and> readable s \<longrightarrow> readVideos (writeVideos s ?videos) = Ok ?videos"
    by (simp add: read_after_write)
  from h len before after saved show ?thesis by (simp add: Let_def)
qed

theorem delete_video_shifts_witness:
  \<open>\<exists>s'. handle Part_001 (DELETE_video ''music'' ''1'')
          \<lparr>content = Some ''{"music": {"categoryThumbnail": "", "videos": [{"title": "a"}, {"title": "b"}, {"title": "c"}]}}'',
           readable = True, writable = True\<rparr>
        = Ok (Response 200 (Some (ok_with ''videos''
               (JArr [JObj [(''title'', JStr ''a'')], JObj [(''title'', JStr ''c'')]]))), s')
      \<and> readVideos s' = Ok (JObj [(''music'', JObj [(''categoryThumbnail'', JStr []),
               (''videos'', JArr [JObj [(''title'', JStr ''a'')], JObj [(''title'', JStr ''c'')]])])])\<close>
proof -
  let ?s = \<open>\<lparr>content = Some ''{"music": {"categoryThumbnail": "", "videos": [{"title": "a"}, {"title": "b"}, {"title": "c"}]}}'',
           readable = True, writable = True\<rparr>\<close>
  let ?vs = "[JObj [(''title'', JStr ''a'')], JObj [(''title'', JStr ''b'')], JObj [(''title'', JStr ''c'')]]"
  let ?e = "JObj [(''categoryThumbnail'', JStr []), (''videos'', JArr ?vs)]"
  have rd: "readVideos ?s = Ok (JObj [(''music'', ?e)])"
    by (simp add: eval_defs)
  have ix: "array_index ''1'' = Some 1"
    by (simp add: array_index_def is_digit_def decimal_def digit_val_def)
  have "map_of [(''music'', ?e)] ''music'' = Some ?e" by simp
  from delete_video_shifts [OF rd this, of Part_001 ?vs "''1''" 1] ix
  show ?thesis
    by (simp add: Let_def set_prop_def)
qed

section \<open>Creating a video\<close>

lemma field_of_object: "k \<notin> set Object_prototype \<Longrightarrow> field (JObj ps) k = Ok (map_of ps k)"
  by (auto simp: field_def inherited_def Object_prototype_def split: option.splits)

lemma body_fields:
  "field (JObj ps) ''title'' = Ok (map_of ps ''title'')"
  "field (JObj ps) ''description'' = Ok (map_of ps ''description'')"
  "field (JObj ps) ''url'' = Ok (map_of ps ''url'')"
  "field (JObj ps) ''thumbnail'' = Ok (map_of ps ''thumbnail'')"
  "field (JObj ps) ''name'' = Ok (map_of ps ''name'')"
  by (simp_all add: field_of_object Object_prototype_def)

text \<open>
  The revisions of \<^verbatim>\<open>src/server.js\<close> and part\_000 reject a body without a truthy
  title or without a truthy URL before they read the document.
\<close>

lemma post_video_validated:
  assumes "v \<noteq> Part_001"
    and "\<not> given (map_of ps ''title'') \<or> \<not> given (map_of ps ''url'')"
  shows "handle v (POST_video category (JObj ps)) s
     = Ok (Response 400 (Some (error ''Title and URL are required'')), s)"
  using assms
  by (cases v)
     (auto simp: post_video_flat_def post_video_create_def post_video_strict_def body_fields
        respond_def)

text \<open>
  Claim C1 holds of those four revisions and fails in part\_001, whose handler has lost
  the check: a body with neither title nor URL is answered with 200, and a video without
  them is appended to the category and saved.
\<close>

theorem post_video_unchecked_accepts:
  \<open>handle Part_001 (POST_video ''music'' (JObj []))
      \<lparr>content = Some ''{"music": {"categoryThumbnail": "", "videos": []}}'',
       readable = True, writable = True\<rparr>
    = Ok (Response 200 (Some (ok_with ''videos'' (JArr [JObj [(''description'', JStr [])]]))),
          \<lparr>content = Some (JSON_stringify (JObj [(''music'', JObj [(''categoryThumbnail'', JStr []),
                 (''videos'', JArr [JObj [(''description'', JStr [])]])])])),
           readable = True, writable = True\<rparr>)
   \<and> readVideos \<lparr>content = Some (JSON_stringify (JObj [(''music'', JObj [(''categoryThumbnail'', JStr []),
                 (''videos'', JArr [JObj [(''description'', JStr [])]])])])),
           readable = True, writable = True\<rparr>
      = Ok (JObj [(''music'', JObj [(''categoryThumbnail'', JStr []),
                 (''videos'', JArr [JObj [(''description'', JStr [])]])])])\<close>
proof -
  let ?s = \<open>\<lparr>content = Some ''{"music": {"categoryThumbnail": "", "videos": []}}'',
       readable = True, writable = True\<rparr>\<close>
  let ?c = "JObj [(''music'', JObj [(''categoryThumbnail'', JStr []),
                 (''videos'', JArr [JObj [(''description'', JStr [])]])])]"
  have rd: "readVideos ?s = Ok (JObj [(''music'', JObj [(''categoryThumbnail'', JStr []), (''videos'', JArr [])])])"
    by (simp add: eval_defs)
  have h: "handle Part_001 (POST_video ''music'' (JObj [])) ?s
     = Ok (Response 200 (Some (ok_with ''videos'' (JArr [JObj [(''description'', JStr [])]]))),
           writeVideos ?s ?c)"
    using rd
    by (simp add: post_video_unchecked_def push_video_def new_video_def body_fields respond_def
          set_prop_def)
  have w: "writeVideos ?s ?c = \<lparr>content = Some (JSON_stringify ?c), readable = True, writable = True\<rparr>"
    by (simp add: writeVideos_def writeFile_def)
  have "json_wf ?c" by (simp add: key_before_def array_index_def is_digit_def)
  then have "readVideos (writeVideos ?s ?c) = Ok ?c" by (simp add: read_after_write)
  with h w show ?thesis by simp
qed

section \<open>Listing one category\<close>

lemma absent_entry:
  "map_of kvs k = None \<Longrightarrow> k \<notin> set Object_prototype \<Longrightarrow> get_json (JObj kvs) k = Ok Undefined"
  by (simp add: inherited_def Object_prototype_def)


lemma is_category_videos: "is_category sch e \<Longrightarrow> \<exists>vs. category_videos sch e = Some vs \<and> list_all is_video vs"
  by (auto simp: is_category_def split: option.splits)





section \<open>Creating a category\<close>

lemma key_before_irrefl: "\<not> key_before a a"
  by (simp add: key_before_def split: option.splits)

lemma keys_distinct: "sorted_wrt key_before ks \<Longrightarrow> distinct ks"
  by (induction ks) (auto simp: key_before_irrefl)

lemma one_entry:
  "distinct (map fst kvs) \<Longrightarrow> k \<in> fst ` set kvs \<Longrightarrow> length (filter (\<lambda>kv. fst kv = k) kvs) = 1"
proof (induction kvs)
  case Nil
  then show ?case by simp
next
  case (Cons kv kvs)
  show ?case
  proof (cases "fst kv = k")
    case True
    then have "k \<notin> fst ` set kvs" using Cons.prems(1) by auto
    then have "filter (\<lambda>kv. fst kv = k) kvs = []" by (auto simp: filter_empty_conv)
    with True show ?thesis by simp
  next
    case False
    with Cons show ?thesis by auto
  qed
qed

text \<open>
  Claim C3 says that creating a category whose name is in the catalog is answered with
  the conflict error. As stated it fails for the empty name: a document may have the key
  \<^verbatim>\<open>""\<close>, and the request is then refused by the check of the name, which comes
  first.
\<close>

theorem post_category_counterexample:
  \<open>entry (loaded (readVideos \<lparr>content = Some ''{"": []}'', readable = True, writable = True\<rparr>)) ''''
     = Some (JArr [])
   \<and> handle Part_000 (POST_category (JObj [(''name'', JStr '''')]))
        \<lparr>content = Some ''{"": []}'', readable = True, writable = True\<rparr>
      = Ok (Response 400 (Some (error ''Category name is required'')),
            \<lparr>content = Some ''{"": []}'', readable = True, writable = True\<rparr>)\<close>
  by (simp add: eval_defs post_category_flat_def post_category_def)

text \<open>
  Claim C3, amended. In every revision with the route, a request to create a category
  with a non-empty name \<open>N\<close> that the catalog has is answered with 400
  \<^verbatim>\<open>Category already exists\<close>; the file system stays as it is, so the catalog
  still has its one entry for \<open>N\<close>, with the same contents.
\<close>

theorem post_category_conflict:
  assumes "readVideos s = Ok (JObj kvs)"
    and "is_catalog (schema_of v) (JObj kvs)"
    and "map_of kvs N = Some e"
    and "N \<noteq> []"
    and "v \<noteq> Server_1"
    and "field body ''name'' = Ok (Some (JStr N))"
  shows "handle v (POST_category body) s
           = Ok (Response 400 (Some (error ''Category already exists'')), s)
       \<and> length (filter (\<lambda>kv. fst kv = N) kvs) = 1
       \<and> entry (loaded (readVideos s)) N = Some e"
proof -
  have "is_category (schema_of v) e"
    using assms(2,3) by (fastforce simp: list_all_iff dest!: map_of_SomeD)
  then have t: "truthy_json e"
    by (cases "schema_of v"; cases e) (auto simp: is_category_def)
  have "post_category fresh body s = Ok (Response 400 (Some (error ''Category already exists'')), s)"
    for fresh
    using assms(1,3,4,6) t by (simp add: post_category_def respond_def)
  then have h: "handle v (POST_category body) s
      = Ok (Response 400 (Some (error ''Category already exists'')), s)"
    using assms(5) by (cases v) (simp_all add: post_category_flat_def post_category_thumb_def)
  have "distinct (map fst kvs)" using assms(2) by (simp add: keys_distinct)
  moreover have "N \<in> fst ` set kvs" using assms(3) by (metis domI dom_map_of_conv_image_fst)
  ultimately have "length (filter (\<lambda>kv. fst kv = N) kvs) = 1" by (rule one_entry)
  with h assms(1,3) show ?thesis by simp
qed

theorem post_category_conflict_witness:
  \<open>handle Part_001 (POST_category (JObj [(''name'', JStr ''music'')]))
      \<lparr>content = Some ''{"music": {"categoryThumbnail": "", "videos": [{"title": "a"}]}}'',
       readable = True, writable = True\<rparr>
     = Ok (Response 400 (Some (error ''Category already exists'')),
           \<lparr>content = Some ''{"music": {"categoryThumbnail": "", "videos": [{"title": "a"}]}}'',
            readable = True, writable = True\<rparr>)\<close>
proof -
  let ?s = \<open>\<lparr>content = Some ''{"music": {"categoryThumbnail": "", "videos": [{"title": "a"}]}}'',
       readable = True, writable = True\<rparr>\<close>
  let ?e = "JObj [(''categoryThumbnail'', JStr []), (''videos'', JArr [JObj [(''title'', JStr ''a'')]])]"
  have rd: "readVideos ?s = Ok (JObj [(''music'', ?e)])"
    by (simp add: eval_defs)
  have cat: "is_catalog (schema_of Part_001) (JObj [(''music'', ?e)])"
    by (simp add: is_category_def key_before_def array_index_def is_digit_def)
  have f: "field (JObj [(''name'', JStr ''music'')]) ''name'' = Ok (Some (JStr ''music''))"
    by (simp add: field_def)
  from post_category_conflict [OF rd cat _ _ _ f, of ?e]
  show ?thesis by simp
qed

section \<open>Deleting a category\<close>

lemma delete_prop_wf:
  assumes "json_wf (JObj kvs)"
  shows "json_wf (JObj (delete_prop kvs k))"
proof -
  have "map fst (filter (\<lambda>kv. fst kv \<noteq> k) kvs) = filter (\<lambda>a. a \<noteq> k) (map fst kvs)"
    by (simp add: filter_map comp_def)
  then show ?thesis
    using assms by (simp add: delete_prop_def sorted_wrt_filter list_all_iff)
qed

lemma delete_prop_entry:
  "map_of (delete_prop kvs k) k' = (if k' = k then None else map_of kvs k')"
  by (induction kvs) (auto simp: delete_prop_def)

lemma delete_category_ok:
  assumes "readVideos s = Ok (JObj kvs)" and "map_of kvs N = Some e" and "truthy_json e"
  shows "delete_category N s
     = Ok (Response 200 (Some (ok_with ''categories'' (names (map fst (delete_prop kvs N))))),
           writeVideos s (JObj (delete_prop kvs N)))"
  using assms by (simp add: delete_category_def respond_def)

text \<open>
  Claim C5 says that after a category is deleted no listing returns its videos. As stated
  it fails when the file cannot be written: the handler answers with the names without
  the category, \<^verbatim>\<open>writeVideos\<close> drops the error, and the next request still finds
  the category in the document.
\<close>

theorem delete_category_counterexample:
  \<open>handle Part_000 (DELETE_category ''music'')
      \<lparr>content = Some ''{"music": [{"title": "a"}]}'', readable = True, writable = False\<rparr>
     = Ok (Response 200 (Some (ok_with ''categories'' (names []))),
           \<lparr>content = Some ''{"music": [{"title": "a"}]}'', readable = True, writable = False\<rparr>)
   \<and> handle Part_000 (GET_category ''music'')
      \<lparr>content = Some ''{"music": [{"title": "a"}]}'', readable = True, writable = False\<rparr>
     = Ok (Response 200 (Some (JArr [JObj [(''title'', JStr ''a'')]])),
           \<lparr>content = Some ''{"music": [{"title": "a"}]}'', readable = True, writable = False\<rparr>)\<close>
  by (simp add: eval_defs delete_category_def get_category_flat_def)

text \<open>
  Claim C5, amended. In every revision with the route, deleting a category \<open>N\<close> of the
  catalog answers with the names without \<open>N\<close> and hands the catalog without the entry
  to \<^verbatim>\<open>writeVideos\<close>. When the file can be written and read, the next request loads
  that catalog: \<^verbatim>\<open>GET /api/videos\<close> returns it, with no entry for \<open>N\<close> and every
  other entry as before, and \<^verbatim>\<open>GET /api/videos/N\<close> is answered as for a category
  that never was (for a name that no object inherits: 404, or in part\_001
  \<^verbatim>\<open>{ videos: [] }\<close>).
\<close>

theorem delete_category_removes:
  assumes "readVideos s = Ok (JObj kvs)"
    and "is_catalog (schema_of v) (JObj kvs)"
    and "map_of kvs N = Some e"
    and "v \<noteq> Server_1"
  shows "let kvs' = delete_prop kvs N; s' = writeVideos s (JObj kvs')
         in handle v (DELETE_category N) s
              = Ok (Response 200 (Some (ok_with ''categories'' (names (map fst kvs')))), s')
          \<and> N \<notin> set (map fst kvs')
          \<and> map_of kvs' N = None
          \<and> (\<forall>k. k \<noteq> N \<longrightarrow> map_of kvs' k = map_of kvs k)
          \<and> (writable s \<and> readable s \<longrightarrow>
                readVideos s' = Ok (JObj kvs')
              \<and> handle v GET_videos s' = Ok (Response 200 (Some (JObj kvs')), s')
              \<and> (N \<notin> set Object_prototype \<longrightarrow>
                    handle v (GET_category N) s'
                      = Ok (if v = Part_001 then Response 200 (Some (JObj [(''videos'', JArr [])]))
                            else Response 404 (Some (error ''Category not found'')), s')))"
proof -
  let ?kvs = "delete_prop kvs N"
  let ?s = "writeVideos s (JObj ?kvs)"
  have "is_category (schema_of v) e"
    using assms(2,3) by (fastforce simp: list_all_iff dest!: map_of_SomeD)
  then have t: "truthy_json e"
    by (cases "schema_of v"; cases e) (auto simp: is_category_def)
  have h: "handle v (DELETE_category N) s
      = Ok (Response 200 (Some (ok_with ''categories'' (names (map fst ?kvs)))), ?s)"
    using delete_category_ok [OF assms(1,3) t] assms(4) by (cases v) simp_all
  have gone: "N \<notin> set (map fst ?kvs)" by (auto simp: delete_prop_def)
  have none: "map_of ?kvs N = None" by (simp add: delete_prop_entry)
  have others: "\<forall>k. k \<noteq> N \<longrightarrow> map_of ?kvs k = map_of kvs k" by (simp add: delete_prop_entry)
  have wf: "json_wf (JObj ?kvs)" using assms(2) by (simp only: is_catalog.simps delete_prop_wf)
  have after: "readVideos ?s = Ok (JObj ?kvs)
      \<and> handle v GET_videos ?s = Ok (Response 200 (Some (JObj ?kvs)), ?s)
      \<and> (N \<notin> set Object_prototype \<longrightarrow>
            handle v (GET_category N) ?s
              = Ok (if v = Part_001 then Response 200 (Some (JObj [(''videos'', JArr [])]))
                    else Response 404 (Some (error ''Category not found'')), ?s))"
    if rw: "writable s \<and> readable s"
  proof -
    have rd: "readVideos ?s = Ok (JObj ?kvs)" using wf rw by (simp add: read_after_write)
    have all: "handle v GET_videos ?s = Ok (Response 200 (Some (JObj ?kvs)), ?s)"
      using rd by (cases v) (simp_all add: get_videos_def)
    have one: "handle v (GET_category N) ?s
              = Ok (if v = Part_001 then Response 200 (Some (JObj [(''videos'', JArr [])]))
                    else Response 404 (Some (error ''Category not found'')), ?s)"
      if "N \<notin> set Object_prototype"
      using rd absent_entry [OF none that] assms(4)
      by (cases v)
         (simp_all add: get_category_flat_def get_category_thumb_def get_category_default_def
            respond_def)
    from rd all one show ?thesis by blast
  qed
  from h gone none others after show ?thesis by (simp add: Let_def)
qed

theorem delete_category_removes_witness:
  \<open>\<exists>s'. handle Server_3 (DELETE_category ''music'')
        \<lparr>content = Some ''{"music": {"categoryThumbnail": "", "videos": [{"title": "a"}]}, "news": {"categoryThumbnail": "", "videos": []}}'',
         readable = True, writable = True\<rparr>
       = Ok (Response 200 (Some (ok_with ''categories'' (names [''news'']))), s')
     \<and> handle Server_3 GET_videos s'
       = Ok (Response 200 (Some (JObj [(''news'', JObj [(''categoryThumbnail'', JStr []), (''videos'', JArr [])])])), s')
     \<and> handle Server_3 (GET_category ''music'') s'
       = Ok (Response 404 (Some (error ''Category not found'')), s')\<close>
proof -
  let ?s = \<open>\<lparr>content = Some ''{"music": {"categoryThumbnail": "", "videos": [{"title": "a"}]}, "news": {"categoryThumbnail": "", "videos": []}}'',
         readable = True, writable = True\<rparr>\<close>
  let ?m = "JObj [(''categoryThumbnail'', JStr []), (''videos'', JArr [JObj [(''title'', JStr ''a'')]])]"
  let ?n = "JObj [(''categoryThumbnail'', JStr []), (''videos'', JArr [])]"
  have rd: "readVideos ?s = Ok (JObj [(''music'', ?m), (''news'', ?n)])"
    by (simp add: eval_defs)
  have cat: "is_catalog (schema_of Server_3) (JObj [(''music'', ?m), (''news'', ?n)])"
    by (simp add: is_category_def key_before_def array_index_def is_digit_def)
  from delete_category_removes [OF rd cat, of "''music''" ?m]
  show ?thesis
    by (simp add: Let_def delete_prop_def Object_prototype_def)
qed

section \<open>The thumbnail of a category\<close>

lemma map_of_insert:
  "k \<notin> fst ` set (l @ r) \<Longrightarrow>
   map_of (l @ (k, v) # r) k' = (if k' = k then Some v else map_of (l @ r) k')"
  by (induction l) auto

lemma map_of_replace_other:
  "k' \<noteq> k \<Longrightarrow> map_of (map (\<lambda>kv. if fst kv = k then (k, v) else kv) kvs) k' = map_of kvs k'"
  by (induction kvs) auto

lemma map_of_replace_same:
  "k \<in> fst ` set kvs \<Longrightarrow> map_of (map (\<lambda>kv. if fst kv = k then (k, v) else kv) kvs) k = Some v"
  by (induction kvs) auto

lemma map_of_replace:
  "k \<in> fst ` set kvs \<Longrightarrow>
   map_of (map (\<lambda>kv. if fst kv = k then (k, v) else kv) kvs) k'
     = (if k' = k then Some v else map_of kvs k')"
  by (simp add: map_of_replace_other map_of_replace_same)

lemma set_prop_entry:
  "map_of (set_prop kvs k v) k' = (if k' = k then Some v else map_of kvs k')"
proof (cases "k \<in> fst ` set kvs")
  case True
  then show ?thesis by (simp add: set_prop_def map_of_replace)
next
  case False
  show ?thesis
  proof (cases "array_index k")
    case None
    with False map_of_insert [of k kvs "[]" v k'] show ?thesis by (simp add: set_prop_def)
  next
    case (Some i)
    with False map_of_insert [of k "takeWhile (index_below i) kvs" "dropWhile (index_below i) kvs" v k']
    show ?thesis by (simp add: set_prop_def)
  qed
qed

lemma only_entry:
  "distinct (map fst kvs) \<Longrightarrow> map_of kvs k = Some e \<Longrightarrow> filter (\<lambda>kv. fst kv = k) kvs = [(k, e)]"
proof (induction kvs)
  case Nil
  then show ?case by simp
next
  case (Cons kv kvs)
  show ?case
  proof (cases "fst kv = k")
    case True
    then have "k \<notin> fst ` set kvs" using Cons.prems(1) by auto
    then have "filter (\<lambda>kv. fst kv = k) kvs = []" by (auto simp: filter_empty_conv)
    with True Cons.prems(2) show ?thesis by (cases kv) auto
  next
    case False
    with Cons show ?thesis by auto
  qed
qed

lemma category_info_object:
  "map_of kvs k = Some (JObj ps) \<Longrightarrow> category_info (JObj kvs) k = Ok (listing (k, JObj ps))"
  by (simp add: category_info_def listing_def inherited_def Object_prototype_def
        split: option.splits)

lemma map_res_listing:
  assumes "\<forall>kv \<in> set l. \<exists>ps. snd kv = JObj ps \<and> map_of kvs (fst kv) = Some (JObj ps)"
  shows "map_res (category_info (JObj kvs)) (map fst l) = Ok (map listing l)"
  using assms
proof (induction l)
  case Nil
  show ?case by simp
next
  case (Cons kv l)
  then obtain ps where "snd kv = JObj ps" "map_of kvs (fst kv) = Some (JObj ps)" by auto
  then have "category_info (JObj kvs) (fst kv) = Ok (listing kv)"
    using category_info_object [of kvs "fst kv" ps] by (cases kv) simp
  with Cons show ?case by simp
qed

lemma get_categories_thumb_ok:
  assumes "readVideos s = Ok (JObj kvs)" and "distinct (map fst kvs)"
    and "\<forall>kv \<in> set kvs. \<exists>ps. snd kv = JObj ps"
  shows "get_categories_thumb s = Ok (Response 200 (Some (JArr (map listing kvs))), s)"
proof -
  have "\<forall>kv \<in> set kvs. \<exists>ps. snd kv = JObj ps \<and> map_of kvs (fst kv) = Some (JObj ps)"
    using assms(2,3) by (metis map_of_eq_Some_iff prod.collapse)
  then have "map_res (category_info (JObj kvs)) (map fst kvs) = Ok (map listing kvs)"
    by (rule map_res_listing)
  with assms(1) show ?thesis by (simp add: get_categories_thumb_def respond_def)
qed

lemma thumb_category_object: "is_category Thumbnailed e \<Longrightarrow> \<exists>ps. e = JObj ps"
  by (cases e) (simp_all add: is_category_def)

lemma patch_category_thumbnail_ok:
  assumes "readVideos s = Ok (JObj kvs)" and "map_of kvs N = Some (JObj ps)"
    and "field body ''thumbnail'' = Ok (Some T)" and "truthy_json T"
  shows "patch_category_thumbnail N body s
     = Ok (Response 200 (Some (ok_with ''thumbnail'' T)),
           writeVideos s (JObj (set_prop kvs N (JObj (set_prop ps ''categoryThumbnail'' T)))))"
proof -
  have "N \<in> fst ` set kvs" using assms(2) by (metis domI dom_map_of_conv_image_fst)
  then show ?thesis
    using assms by (simp add: patch_category_thumbnail_def respond_def)
qed

text \<open>
  Claim C8 says that after the thumbnail of a category is set, the list of categories
  reports it. As stated it fails when the file cannot be written: the handler answers
  with the new thumbnail, and the next request reads the old one.
\<close>

theorem patch_category_thumbnail_counterexample:
  \<open>handle Part_001 (PATCH_category_thumbnail ''music'' (JObj [(''thumbnail'', JStr ''t.png'')]))
      \<lparr>content = Some ''{"music": {"categoryThumbnail": "", "videos": []}}'',
       readable = True, writable = False\<rparr>
     = Ok (Response 200 (Some (ok_with ''thumbnail'' (JStr ''t.png''))),
           \<lparr>content = Some ''{"music": {"categoryThumbnail": "", "videos": []}}'',
            readable = True, writable = False\<rparr>)
   \<and> handle Part_001 GET_categories
      \<lparr>content = Some ''{"music": {"categoryThumbnail": "", "videos": []}}'',
       readable = True, writable = False\<rparr>
     = Ok (Response 200 (Some (JArr [JObj [(''name'', JStr ''music''), (''categoryThumbnail'', JStr [])]])),
           \<lparr>content = Some ''{"music": {"categoryThumbnail": "", "videos": []}}'',
            readable = True, writable = False\<rparr>)\<close>
  by (simp add: eval_defs patch_category_thumbnail_def get_categories_thumb_def category_info_def)

text \<open>
  Claim C8, amended. In every revision with the route: a request without a truthy
  thumbnail is answered with 400; with one, a category that is not in the catalog (and
  whose name no object inherits) is answered with 404; for a category \<open>N\<close> of the
  catalog the handler sets the \<^verbatim>\<open>categoryThumbnail\<close> of \<open>N\<close> to the value \<open>T\<close>,
  answers with \<open>T\<close>, and hands the catalog to \<^verbatim>\<open>writeVideos\<close>. When the file can
  be written and read, the list of categories of the next request has exactly one entry
  for \<open>N\<close>, with \<open>T\<close> as its thumbnail.
\<close>

theorem patch_category_thumbnail_sets:
  assumes "readVideos s = Ok (JObj kvs)"
    and "is_catalog Thumbnailed (JObj kvs)"
    and "v = Server_2 \<or> v = Server_3 \<or> v = Part_001"
    and "field body ''thumbnail'' = Ok t"
  shows
    "(\<not> given t \<longrightarrow>
        handle v (PATCH_category_thumbnail N body) s
          = Ok (Response 400 (Some (error ''Thumbnail URL is required'')), s))
   \<and> (given t \<and> map_of kvs N = None \<and> N \<notin> set Object_prototype \<longrightarrow>
        handle v (PATCH_category_thumbnail N body) s
          = Ok (Response 404 (Some (error ''Category not found'')), s))
   \<and> (\<forall>T ps. t = Some T \<and> truthy_json T \<and> json_wf T \<and> map_of kvs N = Some (JObj ps) \<longrightarrow>
        (let e' = JObj (set_prop ps ''categoryThumbnail'' T);
             s' = writeVideos s (JObj (set_prop kvs N e'))
         in handle v (PATCH_category_thumbnail N body) s
              = Ok (Response 200 (Some (ok_with ''thumbnail'' T)), s')
          \<and> entry e' ''categoryThumbnail'' = Some T
          \<and> (writable s \<and> readable s \<longrightarrow>
               (\<exists>cats. handle v GET_categories s' = Ok (Response 200 (Some (JArr cats)), s')
                  \<and> filter (\<lambda>c. entry c ''name'' = Some (JStr N)) cats
                      = [JObj [(''name'', JStr N), (''categoryThumbnail'', T)]]))))"
proof -
  have h: "handle v (PATCH_category_thumbnail N body) s = patch_category_thumbnail N body s"
    using assms(3) by auto
  have g: "handle v GET_categories = get_categories_thumb"
    using assms(3) by auto
  have missing: "patch_category_thumbnail N body s
      = Ok (Response 400 (Some (error ''Thumbnail URL is required'')), s)" if "\<not> given t"
    using that assms(4) by (cases t) (simp_all add: patch_category_thumbnail_def respond_def)
  have unknown: "patch_category_thumbnail N body s
      = Ok (Response 404 (Some (error ''Category not found'')), s)"
    if "given t" "map_of kvs N = None" "N \<notin> set Object_prototype"
    using that assms(1,4) absent_entry [OF that(2,3)]
    by (cases t) (simp_all add: patch_category_thumbnail_def respond_def)
  have sets: "let e' = JObj (set_prop ps ''categoryThumbnail'' T);
             s' = writeVideos s (JObj (set_prop kvs N e'))
         in patch_category_thumbnail N body s
              = Ok (Response 200 (Some (ok_with ''thumbnail'' T)), s')
          \<and> entry e' ''categoryThumbnail'' = Some T
          \<and> (writable s \<and> readable s \<longrightarrow>
               (\<exists>cats. get_categories_thumb s' = Ok (Response 200 (Some (JArr cats)), s')
                  \<and> filter (\<lambda>c. entry c ''name'' = Some (JStr N)) cats
                      = [JObj [(''name'', JStr N), (''categoryThumbnail'', T)]]))"
    if T: "t = Some T" "truthy_json T" "json_wf T" and N: "map_of kvs N = Some (JObj ps)" for T ps
  proof -
    let ?e = "JObj (set_prop ps ''categoryThumbnail'' T)"
    let ?kvs = "set_prop kvs N ?e"
    let ?s = "writeVideos s (JObj ?kvs)"
    have p: "patch_category_thumbnail N body s = Ok (Response 200 (Some (ok_with ''thumbnail'' T)), ?s)"
      using patch_category_thumbnail_ok [OF assms(1) N _ T(2)] assms(4) T(1) by simp
    have e: "entry ?e ''categoryThumbnail'' = Some T" by (simp add: set_prop_entry)
    have wf: "json_wf (JObj kvs)" using assms(2) by simp
    have "json_wf (JObj ps)" using wf N by (rule entry_wf)
    then have "json_wf ?e" using T(3) by (rule set_prop_wf)
    with wf have wf': "json_wf (JObj ?kvs)" by (rule set_prop_wf)
    have objs: "list_all (\<lambda>kv. \<exists>ps. snd kv = JObj ps) kvs"
      using assms(2) by (auto simp: list_all_iff dest: thumb_category_object)
    have objs': "list_all (\<lambda>kv. \<exists>ps. snd kv = JObj ps) ?kvs"
      using objs by (rule set_prop_values) simp
    have listed: "\<exists>cats. get_categories_thumb ?s = Ok (Response 200 (Some (JArr cats)), ?s)
          \<and> filter (\<lambda>c. entry c ''name'' = Some (JStr N)) cats
              = [JObj [(''name'', JStr N), (''categoryThumbnail'', T)]]"
      if rw: "writable s \<and> readable s"
    proof -
      have rd: "readVideos ?s = Ok (JObj ?kvs)" using wf' rw by (simp add: read_after_write)
      have d: "distinct (map fst ?kvs)" using wf' by (simp add: keys_distinct)
      have l: "get_categories_thumb ?s = Ok (Response 200 (Some (JArr (map listing ?kvs))), ?s)"
        using rd d objs' by (intro get_categories_thumb_ok) (auto simp: list_all_iff)
      have "filter (\<lambda>c. entry c ''name'' = Some (JStr N)) (map listing ?kvs)
          = map listing (filter (\<lambda>kv. fst kv = N) ?kvs)"
        by (simp add: filter_map comp_def listing_def)
      also have "filter (\<lambda>kv. fst kv = N) ?kvs = [(N, ?e)]"
        using d by (rule only_entry) (simp add: set_prop_entry)
      also have "map listing [(N, ?e)] = [JObj [(''name'', JStr N), (''categoryThumbnail'', T)]]"
        using T(2) by (simp add: listing_def set_prop_entry)
      finally show ?thesis using l by blast
    qed
    from p e listed show ?thesis by (simp add: Let_def)
  qed
  show ?thesis
    unfolding h g
  proof (intro conjI impI allI)
    assume "\<not> given t"
    then show "patch_category_thumbnail N body s
      = Ok (Response 400 (Some (error ''Thumbnail URL is required'')), s)"
      by (rule missing)
  next
    assume "given t \<and> map_of kvs N = None \<and> N \<notin> set Object_prototype"
    then show "patch_category_thumbnail N body s
      = Ok (Response 404 (Some (error ''Category not found'')), s)"
      using unknown by blast
  next
    fix T ps
    assume "t = Some T \<and> truthy_json T \<and> json_wf T \<and> map_of kvs N = Some (JObj ps)"
    then show "let e' = JObj (set_prop ps ''categoryThumbnail'' T);
             s' = writeVideos s (JObj (set_prop kvs N e'))
         in patch_category_thumbnail N body s
              = Ok (Response 200 (Some (ok_with ''thumbnail'' T)), s')
          \<and> entry e' ''categoryThumbnail'' = Some T
          \<and> (writable s \<and> readable s \<longrightarrow>
               (\<exists>cats. get_categories_thumb s' = Ok (Response 200 (Some (JArr cats)), s')
                  \<and> filter (\<lambda>c. entry c ''name'' = Some (JStr N)) cats
                      = [JObj [(''name'', JStr N), (''categoryThumbnail'', T)]]))"
      using sets by blast
  qed
qed

theorem patch_category_thumbnail_sets_witness:
  \<open>\<exists>s'. handle Part_001 (PATCH_category_thumbnail ''music'' (JObj [(''thumbnail'', JStr ''t.png'')]))
        \<lparr>content = Some ''{"music": {"categoryThumbnail": "", "videos": []}}'',
         readable = True, writable = True\<rparr>
       = Ok (Response 200 (Some (ok_with ''thumbnail'' (JStr ''t.png''))), s')
     \<and> (\<exists>cats. handle Part_001 GET_categories s' = Ok (Response 200 (Some (JArr cats)), s')
          \<and> filter (\<lambda>c. entry c ''name'' = Some (JStr ''music'')) cats
              = [JObj [(''name'', JStr ''music''), (''categoryThumbnail'', JStr ''t.png'')]])\<close>
proof -
  let ?s = \<open>\<lparr>content = Some ''{"music": {"categoryThumbnail": "", "videos": []}}'',
         readable = True, writable = True\<rparr>\<close>
  let ?ps = "[(''categoryThumbnail'', JStr []), (''videos'', JArr [])]"
  have rd: "readVideos ?s = Ok (JObj [(''music'', JObj ?ps)])"
    by (simp add: eval_defs)
  have cat: "is_catalog Thumbnailed (JObj [(''music'', JObj ?ps)])"
    by (simp add: is_category_def key_before_def array_index_def is_digit_def)
  have f: "field (JObj [(''thumbnail'', JStr ''t.png'')]) ''thumbnail'' = Ok (Some (JStr ''t.png''))"
    by (simp add: field_def)
  from patch_category_thumbnail_sets [OF rd cat _ f, of Part_001 "''music''"]
  have "let e' = JObj (set_prop ?ps ''categoryThumbnail'' (JStr ''t.png''));
             s' = writeVideos ?s (JObj (set_prop [(''music'', JObj ?ps)] ''music'' e'))
         in handle Part_001 (PATCH_category_thumbnail ''music'' (JObj [(''thumbnail'', JStr ''t.png'')])) ?s
              = Ok (Response 200 (Some (ok_with ''thumbnail'' (JStr ''t.png''))), s')
          \<and> (\<exists>cats. handle Part_001 GET_categories s' = Ok (Response 200 (Some (JArr cats)), s')
                  \<and> filter (\<lambda>c. entry c ''name'' = Some (JStr ''music'')) cats
                      = [JObj [(''name'', JStr ''music''), (''categoryThumbnail'', JStr ''t.png'')]])"
    by (simp add: Let_def)
  then show ?thesis unfolding Let_def by blast
qed

section \<open>A request changes one category\<close>

lemma ensure_category_step:
  assumes "ensure_category videos c fresh = Ok videos1"
  shows "videos1 = videos \<or> set_json videos c fresh = Ok videos1"
  using assms by (auto simp: ensure_category_def bind_eq_Ok split: if_splits)

lemma get_json_wf: "get_json x k = Ok a \<Longrightarrow> json_wf x \<Longrightarrow> val_wf a"
  by (cases x) (auto simp: list_all_length inherited_def split: option.splits if_splits
      dest: entry_wf [rotated])

lemma get_wf: "get a k = Ok b \<Longrightarrow> val_wf a \<Longrightarrow> val_wf b"
  by (cases a) (auto dest: get_json_wf split: if_splits)

lemma push_wf: "push a v = Ok r \<Longrightarrow> val_wf a \<Longrightarrow> json_wf v \<Longrightarrow> json_wf r"
  by (cases "(a, v)" rule: push.cases) auto

lemma splice1_wf:
  assumes "splice1 a i = Ok r" "val_wf a"
  shows "json_wf r"
proof (cases "(a, i)" rule: splice1.cases)
  case (1 xs index)
  then show ?thesis
    using assms list_all_remove [of json_wf xs "splice_start i"] by auto
qed (use assms in auto)

lemma set_json_wf:
  assumes "set_json x k v = Ok r" "json_wf x" "json_wf v"
  shows "json_wf r"
proof (cases x)
  case (JObj kvs)
  with assms(1) have r: "r = JObj (set_prop kvs k v)" by (auto split: if_splits)
  show ?thesis unfolding r using assms(2,3) JObj set_prop_wf by blast
qed (use assms(1) in simp_all)

lemma set_member_wf: "set_member a k v = Ok r \<Longrightarrow> val_wf a \<Longrightarrow> json_wf v \<Longrightarrow> json_wf r"
  by (cases a) (auto dest: set_json_wf)

lemma put_back_json_wf:
  assumes "put_back_json x k v = Ok r" "json_wf x" "json_wf v"
  shows "json_wf r"
proof (cases x)
  case (JArr xs)
  with assms(1) obtain i where r: "r = JArr (xs[i := v])"
    by (auto split: option.splits if_splits)
  have "set (xs[i := v]) \<subseteq> insert v (set xs)" by (rule set_update_subset_insert)
  with assms(2,3) JArr show ?thesis unfolding r by (auto simp: list_all_iff)
next
  case (JObj kvs)
  with assms(1) have r: "r = JObj (set_prop kvs k v)" by (auto split: if_splits)
  show ?thesis unfolding r using assms(2,3) JObj set_prop_wf by blast
qed (use assms(1) in simp_all)

lemma put_back_wf: "put_back a k v = Ok r \<Longrightarrow> val_wf a \<Longrightarrow> json_wf v \<Longrightarrow> json_wf r"
  by (cases a) (auto dest: put_back_json_wf)

lemma delete_json_wf: "delete_json x k = Ok r \<Longrightarrow> json_wf x \<Longrightarrow> json_wf r"
  by (cases x) (auto dest: delete_prop_wf [rotated] simp del: json_wf.simps)

lemma set_json_frame: "set_json x k v = Ok r \<Longrightarrow> k' \<noteq> k \<Longrightarrow> entry r k' = entry x k'"
  by (cases x) (auto simp: set_prop_entry split: if_splits)

lemma put_back_json_frame: "put_back_json x k v = Ok r \<Longrightarrow> k' \<noteq> k \<Longrightarrow> entry r k' = entry x k'"
  by (cases x) (auto simp: set_prop_entry split: if_splits option.splits)

lemma delete_json_frame: "delete_json x k = Ok r \<Longrightarrow> k' \<noteq> k \<Longrightarrow> entry r k' = entry x k'"
  by (cases x) (auto simp: delete_prop_entry)

lemma field_wf:
  assumes "field body k = Ok (Some t)" "json_wf body"
  shows "json_wf t"
proof -
  from assms(1) obtain x where x: "get_json body k = Ok x"
    and c: "(case x of Val v \<Rightarrow> Ok (Some v) | Undefined \<Rightarrow> Ok None | _ \<Rightarrow> Beyond) = Ok (Some t)"
    by (auto simp: field_def bind_eq_Ok)
  from c have "x = Val t" by (cases x) auto
  with get_json_wf [OF x assms(2)] show ?thesis by simp
qed

lemma plain_keys:
  "array_index ''title'' = None" "array_index ''description'' = None"
  "array_index ''url'' = None" "array_index ''thumbnail'' = None"
  by (simp_all add: array_index_def is_digit_def)

lemma or_empty_wf: "(\<And>v. t = Some v \<Longrightarrow> json_wf v) \<Longrightarrow> json_wf (or_empty t)"
  by (cases t) auto

lemma new_video_wf:
  assumes "\<And>v. title = Some v \<Longrightarrow> json_wf v" "\<And>v. description = Some v \<Longrightarrow> json_wf v"
    "\<And>v. url = Some v \<Longrightarrow> json_wf v" "\<And>v. thumbnail = Some v \<Longrightarrow> json_wf v"
  shows "json_wf (new_video title description url thumbnail)"
  using assms or_empty_wf [of description]
  by (cases title; cases url; cases thumbnail)
     (auto simp: new_video_def key_before_def plain_keys)

lemma changes_onlyI:
  "readVideos s = Ok videos \<Longrightarrow> json_wf saved \<Longrightarrow>
   (\<And>k. k \<noteq> c \<Longrightarrow> entry saved k = entry videos k) \<Longrightarrow>
   changes_only c s (writeVideos s saved)"
  unfolding changes_only_def by blast

lemma push_video_changes:
  assumes "push_video videos c video s = Ok (r, s')" and "readVideos s = Ok before"
    and "json_wf videos" and "json_wf video"
    and "\<And>k. k \<noteq> c \<Longrightarrow> entry videos k = entry before k"
  shows "changes_only c s s'"
proof -
  from assms(1) obtain e vs vs' e' saved where
    e: "get_json videos c = Ok e" and vs: "get e ''videos'' = Ok vs"
    and p: "push vs video = Ok vs'" and b: "put_back e ''videos'' vs' = Ok e'"
    and sv: "put_back_json videos c e' = Ok saved" and s': "s' = writeVideos s saved"
    by (auto simp: push_video_def bind_eq_Ok respond_eq)
  have we: "val_wf e" using e assms(3) by (rule get_json_wf)
  have "val_wf vs" using vs we by (rule get_wf)
  then have "json_wf vs'" using push_wf [OF p] assms(4) by blast
  then have "json_wf e'" using put_back_wf [OF b we] by blast
  then have "json_wf saved" using put_back_json_wf [OF sv assms(3)] by blast
  moreover have "entry saved k = entry before k" if "k \<noteq> c" for k
    using put_back_json_frame [OF sv that] assms(5) [OF that] by simp
  ultimately show ?thesis unfolding s' using assms(2) by (intro changes_onlyI)
qed

lemma fields_wf:
  assumes "json_wf body" "field body k = Ok t"
  shows "\<And>v. t = Some v \<Longrightarrow> json_wf v" "\<And>v. required t = Some v \<Longrightarrow> json_wf v"
proof -
  show a: "\<And>v. t = Some v \<Longrightarrow> json_wf v" using assms field_wf by blast
  show "\<And>v. required t = Some v \<Longrightarrow> json_wf v"
    using a by (cases t) (auto split: if_splits)
qed

lemma post_video_strict_changes:
  assumes "post_video_strict c body s = Ok (r, s')" and "json_wf body"
  shows "changes_only c s s'"
proof (cases "s' = s")
  case True
  then show ?thesis by (simp add: changes_only_def)
next
  case False
  with assms(1) obtain title description url thumbnail videos where
    f: "field body ''title'' = Ok title" "field body ''description'' = Ok description"
       "field body ''url'' = Ok url" "field body ''thumbnail'' = Ok thumbnail"
    and rd: "readVideos s = Ok videos"
    and p: "push_video videos c (new_video title description url thumbnail) s = Ok (r, s')"
    by (auto simp: post_video_strict_def bind_eq_Ok respond_eq split: if_splits)
  have "json_wf (new_video title description url thumbnail)"
    using fields_wf(1) [OF assms(2)] f by (intro new_video_wf) blast+
  then show ?thesis
    using push_video_changes [OF p rd readVideos_wf [OF rd]] by simp
qed

lemma post_video_unchecked_changes:
  assumes "post_video_unchecked c body s = Ok (r, s')" and "json_wf body"
  shows "changes_only c s s'"
proof (cases "s' = s")
  case True
  then show ?thesis by (simp add: changes_only_def)
next
  case False
  with assms(1) obtain title description url thumbnail videos where
    f: "field body ''title'' = Ok title" "field body ''description'' = Ok description"
       "field body ''url'' = Ok url" "field body ''thumbnail'' = Ok thumbnail"
    and rd: "readVideos s = Ok videos"
    and p: "push_video videos c (new_video title description url thumbnail) s = Ok (r, s')"
    by (auto simp: post_video_unchecked_def bind_eq_Ok respond_eq split: if_splits)
  have "json_wf (new_video title description url thumbnail)"
    using fields_wf(1) [OF assms(2)] f by (intro new_video_wf) blast+
  then show ?thesis
    using push_video_changes [OF p rd readVideos_wf [OF rd]] by simp
qed

lemma post_video_create_changes:
  assumes "post_video_create c body s = Ok (r, s')" and "json_wf body"
  shows "changes_only c s s'"
proof (cases "s' = s")
  case True
  then show ?thesis by (simp add: changes_only_def)
next
  case False
  with assms(1) obtain title description url thumbnail videos videos1 where
    f: "field body ''title'' = Ok title" "field body ''description'' = Ok description"
       "field body ''url'' = Ok url" "field body ''thumbnail'' = Ok thumbnail"
    and rd: "readVideos s = Ok videos"
    and v0: "ensure_category videos c
               (JObj [(''categoryThumbnail'', JStr []), (''videos'', JArr [])]) = Ok videos1"
    and p: "push_video videos1 c (new_video title description url thumbnail) s = Ok (r, s')"
    by (auto simp: post_video_create_def bind_eq_Ok respond_eq split: if_splits)
  from v0 have v1: "videos1 = videos \<or> set_json videos c
                (JObj [(''categoryThumbnail'', JStr []), (''videos'', JArr [])]) = Ok videos1"
    by (rule ensure_category_step)
  have wf: "json_wf videos" using rd by (rule readVideos_wf)
  have fresh: "json_wf (JObj [(''categoryThumbnail'', JStr []), (''videos'', JArr [])])"
    by (simp add: key_before_def array_index_def is_digit_def)
  have wf1: "json_wf videos1" using v1 wf fresh set_json_wf by blast
  have fr: "entry videos1 k = entry videos k" if "k \<noteq> c" for k
    using v1 that set_json_frame by blast
  have "json_wf (new_video title description url thumbnail)"
    using fields_wf(1) [OF assms(2)] f by (intro new_video_wf) blast+
  then show ?thesis
    using push_video_changes [OF p rd wf1] fr by simp
qed

lemma post_video_flat_changes:
  assumes "post_video_flat c body s = Ok (r, s')" and "json_wf body"
  shows "changes_only c s s'"
proof (cases "s' = s")
  case True
  then show ?thesis by (simp add: changes_only_def)
next
  case False
  let ?video = "\<lambda>title description url.
     JObj (entry_of ''title'' title @ [(''description'', or_empty description)] @ entry_of ''url'' url)"
  from False assms(1) obtain title description url videos videos1 e e' saved where
    f: "field body ''title'' = Ok title" "field body ''description'' = Ok description"
       "field body ''url'' = Ok url"
    and rd: "readVideos s = Ok videos"
    and v0: "ensure_category videos c (JArr []) = Ok videos1"
    and e: "get_json videos1 c = Ok e"
    and p: "push e (?video title description url) = Ok e'"
    and sv: "put_back_json videos1 c e' = Ok saved" and s': "s' = writeVideos s saved"
    by (auto simp: post_video_flat_def bind_eq_Ok respond_eq split: if_splits)
  from v0 have v1: "videos1 = videos \<or> set_json videos c (JArr []) = Ok videos1"
    by (rule ensure_category_step)
  have wf: "json_wf videos" using rd by (rule readVideos_wf)
  have wf1: "json_wf videos1" using v1 wf set_json_wf [of videos c "JArr []"] by auto
  have fr: "entry videos1 k = entry videos k" if "k \<noteq> c" for k
    using v1 that set_json_frame by blast
  have "json_wf (new_video title description url None)"
    using fields_wf(1) [OF assms(2)] f by (intro new_video_wf) (blast, blast, blast, simp)
  then have video: "json_wf (?video title description url)" by (simp add: new_video_def)
  have "val_wf e" using e wf1 by (rule get_json_wf)
  then have "json_wf e'" using push_wf [OF p] video by blast
  then have "json_wf saved" using put_back_json_wf [OF sv wf1] by blast
  moreover have "entry saved k = entry videos k" if "k \<noteq> c" for k
    using put_back_json_frame [OF sv that] fr [OF that] by simp
  ultimately show ?thesis unfolding s' using rd by (intro changes_onlyI)
qed

lemma unchanged: "changes_only c s s"
  by (simp add: changes_only_def)

lemma patch_video_thumbnail_changes:
  assumes "patch_video_thumbnail c i body s = Ok (r, s')" and "json_wf body"
  shows "changes_only c s s'"
proof (cases "s' = s")
  case True
  then show ?thesis by (simp add: unchanged)
next
  case False
  with assms(1) obtain t thumbnail videos e vs video video' vs' e' saved where
    f: "field body ''thumbnail'' = Ok t" and t: "required t = Some thumbnail"
    and rd: "readVideos s = Ok videos" and e: "get_json videos c = Ok e"
    and vs: "get e ''videos'' = Ok vs" and video: "get vs i = Ok video"
    and m: "set_member video ''thumbnail'' thumbnail = Ok video'"
    and b1: "put_back vs i video' = Ok vs'" and b2: "put_back e ''videos'' vs' = Ok e'"
    and sv: "put_back_json videos c e' = Ok saved" and s': "s' = writeVideos s saved"
    by (auto simp: patch_video_thumbnail_def bind_eq_Ok respond_eq split: if_splits option.splits)
  have wf: "json_wf videos" using rd by (rule readVideos_wf)
  have we: "val_wf e" using e wf by (rule get_json_wf)
  have wvs: "val_wf vs" using vs we by (rule get_wf)
  have wv: "val_wf video" using video wvs by (rule get_wf)
  have "json_wf thumbnail" using fields_wf(2) [OF assms(2) f t] .
  then have "json_wf video'" using set_member_wf [OF m wv] by blast
  then have "json_wf vs'" using put_back_wf [OF b1 wvs] by blast
  then have "json_wf e'" using put_back_wf [OF b2 we] by blast
  then have "json_wf saved" using put_back_json_wf [OF sv wf] by blast
  moreover have "entry saved k = entry videos k" if "k \<noteq> c" for k
    using put_back_json_frame [OF sv that] .
  ultimately show ?thesis unfolding s' using rd by (intro changes_onlyI)
qed

lemma delete_video_flat_changes:
  assumes "delete_video_flat c i s = Ok (r, s')"
  shows "changes_only c s s'"
proof (cases "s' = s")
  case True
  then show ?thesis by (simp add: unchanged)
next
  case False
  with assms(1) obtain videos e e' saved where
    rd: "readVideos s = Ok videos" and e: "get_json videos c = Ok e"
    and sp: "splice1 e i = Ok e'"
    and sv: "put_back_json videos c e' = Ok saved" and s': "s' = writeVideos s saved"
    by (auto simp: delete_video_flat_def bind_eq_Ok respond_eq split: if_splits)
  have wf: "json_wf videos" using rd by (rule readVideos_wf)
  have we: "val_wf e" using e wf by (rule get_json_wf)
  have "json_wf e'" using sp we by (rule splice1_wf)
  then have "json_wf saved" using put_back_json_wf [OF sv wf] by blast
  moreover have "entry saved k = entry videos k" if "k \<noteq> c" for k
    using put_back_json_frame [OF sv that] .
  ultimately show ?thesis unfolding s' using rd by (intro changes_onlyI)
qed

lemma delete_video_thumb_changes:
  assumes "delete_video_thumb c i s = Ok (r, s')"
  shows "changes_only c s s'"
proof (cases "s' = s")
  case True
  then show ?thesis by (simp add: unchanged)
next
  case False
  with assms(1) obtain videos e vs vs' e' saved where
    rd: "readVideos s = Ok videos" and e: "get_json videos c = Ok e"
    and vs: "get e ''videos'' = Ok vs" and sp: "splice1 vs i = Ok vs'"
    and b: "put_back e ''videos'' vs' = Ok e'"
    and sv: "put_back_json videos c e' = Ok saved" and s': "s' = writeVideos s saved"
    by (auto simp: delete_video_thumb_def bind_eq_Ok respond_eq split: if_splits)
  have wf: "json_wf videos" using rd by (rule readVideos_wf)
  have we: "val_wf e" using e wf by (rule get_json_wf)
  have wvs: "val_wf vs" using vs we by (rule get_wf)
  have "json_wf vs'" using sp wvs by (rule splice1_wf)
  then have "json_wf e'" using put_back_wf [OF b we] by blast
  then have "json_wf saved" using put_back_json_wf [OF sv wf] by blast
  moreover have "entry saved k = entry videos k" if "k \<noteq> c" for k
    using put_back_json_frame [OF sv that] .
  ultimately show ?thesis unfolding s' using rd by (intro changes_onlyI)
qed

lemma post_category_changes:
  assumes "post_category fresh body s = Ok (r, s')" and "json_wf fresh"
    and "target (POST_category body) = Some c"
  shows "changes_only c s s'"
proof (cases "s' = s")
  case True
  then show ?thesis by (simp add: unchanged)
next
  case False
  with assms(1) obtain n name key videos saved where
    f: "field body ''name'' = Ok n" and n: "required n = Some name"
    and k: "key_of name = Ok key"
    and rd: "readVideos s = Ok videos"
    and sv: "set_json videos key fresh = Ok saved" and s': "s' = writeVideos s saved"
    by (auto simp: post_category_def bind_eq_Ok respond_eq split: if_splits option.splits)
  have "n = Some name" using n by (cases n) (auto split: if_splits)
  then have c: "key = c" using assms(3) f k by simp
  have wf: "json_wf videos" using rd by (rule readVideos_wf)
  have "json_wf saved" using set_json_wf [OF sv wf assms(2)] .
  moreover have "entry saved k = entry videos k" if "k \<noteq> c" for k
    using set_json_frame [OF sv] that c by simp
  ultimately show ?thesis unfolding s' using rd by (intro changes_onlyI)
qed

lemma patch_category_thumbnail_changes:
  assumes "patch_category_thumbnail c body s = Ok (r, s')" and "json_wf body"
  shows "changes_only c s s'"
proof (cases "s' = s")
  case True
  then show ?thesis by (simp add: unchanged)
next
  case False
  with assms(1) obtain t thumbnail videos e e' saved where
    f: "field body ''thumbnail'' = Ok t" and t: "required t = Some thumbnail"
    and rd: "readVideos s = Ok videos" and e: "get_json videos c = Ok e"
    and m: "set_member e ''categoryThumbnail'' thumbnail = Ok e'"
    and sv: "put_back_json videos c e' = Ok saved" and s': "s' = writeVideos s saved"
    by (auto simp: patch_category_thumbnail_def bind_eq_Ok respond_eq
        split: if_splits option.splits)
  have wf: "json_wf videos" using rd by (rule readVideos_wf)
  have we: "val_wf e" using e wf by (rule get_json_wf)
  have "json_wf thumbnail" using fields_wf(2) [OF assms(2) f t] .
  then have "json_wf e'" using set_member_wf [OF m we] by blast
  then have "json_wf saved" using put_back_json_wf [OF sv wf] by blast
  moreover have "entry saved k = entry videos k" if "k \<noteq> c" for k
    using put_back_json_frame [OF sv that] .
  ultimately show ?thesis unfolding s' using rd by (intro changes_onlyI)
qed

lemma delete_category_changes:
  assumes "delete_category c s = Ok (r, s')"
  shows "changes_only c s s'"
proof (cases "s' = s")
  case True
  then show ?thesis by (simp add: unchanged)
next
  case False
  with assms(1) obtain videos saved where
    rd: "readVideos s = Ok videos"
    and sv: "delete_json videos c = Ok saved" and s': "s' = writeVideos s saved"
    by (auto simp: delete_category_def bind_eq_Ok respond_eq split: if_splits)
  have wf: "json_wf videos" using rd by (rule readVideos_wf)
  have "json_wf saved" using sv wf by (rule delete_json_wf)
  moreover have "entry saved k = entry videos k" if "k \<noteq> c" for k
    using delete_json_frame [OF sv that] .
  ultimately show ?thesis unfolding s' using rd by (intro changes_onlyI)
qed

lemma changes_only_persisted:
  assumes "changes_only c s s'" and "k \<noteq> c"
  shows "entry (loaded (readVideos s')) k = entry (loaded (readVideos s)) k"
proof (cases "s' = s")
  case True
  then show ?thesis by simp
next
  case False
  with assms(1) obtain videos saved where rd: "readVideos s = Ok videos"
    and s': "s' = writeVideos s saved" and wf: "json_wf saved"
    and fr: "\<forall>k. k \<noteq> c \<longrightarrow> entry saved k = entry videos k"
    unfolding changes_only_def by blast
  have w: "writable s"
  proof (rule ccontr)
    assume "\<not> writable s"
    then have "writeVideos s saved = s" by (simp add: writeVideos_def writeFile_def)
    with False s' show False by simp
  qed
  show ?thesis
  proof (cases "readable s")
    case True
    then have "readVideos s' = Ok saved" using w wf s' by (simp add: read_after_write)
    with rd fr assms(2) show ?thesis by simp
  next
    case False
    then have "readVideos s' = Ok (JObj [])" "readVideos s = Ok (JObj [])"
      using s' w by (simp_all add: readVideos_def readFile_def writeVideos_def writeFile_def)
    then show ?thesis by simp
  qed
qed

lemma handle_changes:
  assumes "handle v req s = Ok (r, s')" and "target req = Some c" and "json_wf (body_of req)"
  shows "changes_only c s s'"
proof -
  have fresh: "json_wf (JArr [])"
    "json_wf (JObj [(''categoryThumbnail'', JStr []), (''videos'', JArr [])])"
    by (simp_all add: key_before_def array_index_def is_digit_def)
  note changes = post_video_flat_changes post_video_create_changes post_video_strict_changes
    post_video_unchecked_changes patch_video_thumbnail_changes delete_video_flat_changes
    delete_video_thumb_changes patch_category_thumbnail_changes delete_category_changes
  show ?thesis
  proof (cases req)
    case (POST_category b)
    then show ?thesis
      using assms fresh post_category_changes [of _ b s r s' c]
      by (cases v) (auto simp: post_category_flat_def post_category_thumb_def not_routed_def unchanged)
  qed (use assms in \<open>cases v; auto simp: not_routed_def unchanged dest: changes\<close>)+
qed

text \<open>
  Claim C9. In every revision, a request that creates a video, sets the thumbnail of a
  video, deletes a video, creates a category, sets the thumbnail of a category or deletes
  a category changes nothing outside the category it is addressed to: either the file
  system stays as it was, or the document is written with every other category as it was
  loaded; so the next request loads every other category unchanged.
\<close>

theorem request_changes_one_category:
  assumes "handle v req s = Ok (r, s')"
    and "target req = Some c"
    and "json_wf (body_of req)"
  shows "changes_only c s s'
       \<and> (\<forall>k. k \<noteq> c \<longrightarrow> entry (loaded (readVideos s')) k = entry (loaded (readVideos s)) k)"
  using handle_changes [OF assms] changes_only_persisted by blast

theorem request_changes_one_category_witness:
  \<open>\<exists>r s'. handle Part_000 (POST_video ''music'' (JObj [(''title'', JStr ''T''), (''url'', JStr ''U'')]))
          \<lparr>content = Some ''{"music": [], "news": [{"title": "n", "description": "", "url": "u"}]}'',
           readable = True, writable = True\<rparr> = Ok (r, s')
     \<and> entry (loaded (readVideos s')) ''news''
         = Some (JArr [JObj [(''title'', JStr ''n''), (''description'', JStr []), (''url'', JStr ''u'')]])
     \<and> entry (loaded (readVideos s')) ''music''
         = Some (JArr [JObj [(''title'', JStr ''T''), (''description'', JStr []), (''url'', JStr ''U'')]])\<close>
proof -
  let ?s = \<open>\<lparr>content = Some ''{"music": [], "news": [{"title": "n", "description": "", "url": "u"}]}'',
           readable = True, writable = True\<rparr>\<close>
  let ?req = "POST_video ''music'' (JObj [(''title'', JStr ''T''), (''url'', JStr ''U'')])"
  let ?news = "JArr [JObj [(''title'', JStr ''n''), (''description'', JStr []), (''url'', JStr ''u'')]]"
  let ?new = "JObj [(''music'', JArr [JObj [(''title'', JStr ''T''), (''description'', JStr []), (''url'', JStr ''U'')]]),
       (''news'', ?news)]"
  have rd: "readVideos ?s = Ok (JObj [(''music'', JArr []), (''news'', ?news)])"
    by (simp add: eval_defs)
  have h: "handle Part_000 ?req ?s
     = Ok (Response 200 (Some (ok_with ''videos''
            (JArr [JObj [(''title'', JStr ''T''), (''description'', JStr []), (''url'', JStr ''U'')]]))),
           writeVideos ?s ?new)"
    using rd
    by (simp add: post_video_flat_def ensure_category_def body_fields respond_def set_prop_def)
  have wf: "json_wf ?new"
    by (simp add: key_before_def array_index_def is_digit_def)
  have after: "readVideos (writeVideos ?s ?new) = Ok ?new"
    using wf by (simp add: read_after_write)
  have body: "json_wf (body_of ?req)"
    by (simp add: key_before_def array_index_def is_digit_def)
  have "entry (loaded (readVideos (writeVideos ?s ?new))) ''news''
      = entry (loaded (readVideos ?s)) ''news''"
    using request_changes_one_category [OF h _ body, of "''music''"] by simp
  then have "entry (loaded (readVideos (writeVideos ?s ?new))) ''news'' = Some ?news"
    using rd by simp
  moreover have "entry (loaded (readVideos (writeVideos ?s ?new))) ''music''
      = Some (JArr [JObj [(''title'', JStr ''T''), (''description'', JStr []), (''url'', JStr ''U'')]])"
    using after by simp
  ultimately show ?thesis using h by blast
qed

end
